theory Spec2Isabelle
  imports Main "HOL-Library.Word"
begin

unbundle bit_operations_syntax

section \<open>Data model (types of the package)\<close>

type_synonym u8 = "8 word"
type_synonym u32 = "32 word"

text \<open>\<^verbatim>\<open>const labelNone uint32 = ^uint32(0)\<close> and \<^verbatim>\<open>const IDNone uint32 = ^uint32(0)\<close>.\<close>

definition labelNone :: u32 where
  "labelNone = NOT 0"

definition IDNone :: u32 where
  "IDNone = NOT 0"

text \<open>\<^verbatim>\<open>const maxU32 = ^uint32(0)\<close>, local to \<^verbatim>\<open>detectDense\<close>.\<close>

definition maxU32 :: u32 where
  "maxU32 = NOT 0"

text \<open>
  \<^verbatim>\<open>type entry struct { Start, End, Label uint32 }\<close>: a lookup record, inclusive bounds.
\<close>

record entry =
  Start :: u32
  End :: u32
  Label :: u32

text \<open>
  \<^verbatim>\<open>type v4Table struct\<close>: three parallel arrays, the dense flag and the two bucket arrays.
  A Go \<^verbatim>\<open>nil\<close> bucket slice is \<open>None\<close>.
\<close>

record v4Table =
  starts :: "u32 list"
  ends :: "u32 list"
  labels :: "u32 list"
  dense :: bool
  bucketLo16 :: "u32 list option"
  bucketHi16 :: "u32 list option"

section \<open>Dense detection (\<^verbatim>\<open>v4Table.detectDense\<close>)\<close>

text \<open>
  The loop \<^verbatim>\<open>for i := 0; i < len(t.starts)-1; i++\<close>. It yields \<open>False\<close> when one of
  the two early returns fires (\<^verbatim>\<open>e == maxU32\<close>, or \<^verbatim>\<open>e+1 != t.starts[i+1]\<close> with the
  wrapping 32-bit addition) and \<open>True\<close> when the loop runs to its end.
\<close>

function denseScan :: "u32 list \<Rightarrow> u32 list \<Rightarrow> nat \<Rightarrow> bool" where
  "denseScan ss es i =
     (if i < length ss - 1 then
        (let e = es ! i in
         if e = maxU32 then False
         else if e + 1 \<noteq> ss ! (i + 1) then False
         else denseScan ss es (i + 1))
      else True)"
  by pat_completeness auto
termination
  by (relation "measure (\<lambda>(ss, es, i). length ss - i)") auto

declare denseScan.simps [simp del]

definition detectDense :: "v4Table \<Rightarrow> v4Table" where
  "detectDense t =
     (if length (starts t) = 0 then t\<lparr>dense := False\<rparr>
      else if length (starts t) \<noteq> length (ends t) \<or> length (starts t) \<noteq> length (labels t)
        then t\<lparr>dense := False\<rparr>
      else if starts t ! 0 \<noteq> 0 then t\<lparr>dense := False\<rparr>
      else if \<not> denseScan (starts t) (ends t) 0 then t\<lparr>dense := False\<rparr>
      else t\<lparr>dense := (ends t ! (length (ends t) - 1) = maxU32)\<rparr>)"

section \<open>Overlap validation of the builder (\<^verbatim>\<open>validateNoOverlapDifferentLabel\<close>)\<close>

text \<open>
  The errors of the package. \<open>ErrOverlap prev cur\<close> is the \<^verbatim>\<open>fmt.Errorf("overlap ...")\<close>
  of the builder, carrying the two entries the message prints.
\<close>

datatype error =
    ErrInvalidDB
  | ErrUnsupportedIP
  | ErrInvalidIP
  | ErrNilResult
  | ErrUnknownVendor
  | ErrOverlap entry entry
  | ErrRangeOverflow

text \<open>
  A run-time panic of Go is not an error value: a function that can panic returns
  \<open>panic + 'a\<close>, with \<open>Inl\<close> the panic.
\<close>

datatype panic = IndexOutOfRange | SliceBoundsOutOfRange | As4OfNonIPv4

text \<open>
  The loop \<^verbatim>\<open>for i := 1; i < len(entries); i++\<close> over consecutive pairs; \<open>None\<close> is the
  \<^verbatim>\<open>nil\<close> error.
\<close>

function validateFrom :: "entry list \<Rightarrow> nat \<Rightarrow> error option" where
  "validateFrom entries i =
     (if i < length entries then
        (let prev = entries ! (i - 1); cur = entries ! i in
         if Start cur \<le> End prev \<and> Label cur \<noteq> Label prev then Some (ErrOverlap prev cur)
         else validateFrom entries (i + 1))
      else None)"
  by pat_completeness auto
termination
  by (relation "measure (\<lambda>(entries, i). length entries - i)") auto

declare validateFrom.simps [simp del]

definition validateNoOverlapDifferentLabel :: "entry list \<Rightarrow> error option" where
  "validateNoOverlapDifferentLabel entries = validateFrom entries 1"

text \<open>The condition under which the loop body returns the overlap error at index \<open>i\<close>.\<close>

definition overlapAt :: "entry list \<Rightarrow> nat \<Rightarrow> bool" where
  "overlapAt entries i \<longleftrightarrow>
     Start (entries ! i) \<le> End (entries ! (i - 1)) \<and> Label (entries ! i) \<noteq> Label (entries ! (i - 1))"

section \<open>Bucket index (\<^verbatim>\<open>v4Table.buildBuckets16\<close>)\<close>

text \<open>\<^verbatim>\<open>const size = 1 << 16\<close>.\<close>

definition bucketCount :: nat where
  "bucketCount = 65536"

text \<open>
  \<^verbatim>\<open>key := uint32(p) << 16\<close>: the conversion and the shift are both on 32 bits, so the
  key of \<open>p = 65536\<close> wraps to 0.
\<close>

definition keyOf :: "nat \<Rightarrow> u32" where
  "keyOf p = push_bit 16 (word_of_nat p)"

text \<open>The inner loop \<^verbatim>\<open>for i < n && xs[i] < key { i++ }\<close>; it returns the new cursor.\<close>

function advance :: "u32 list \<Rightarrow> u32 \<Rightarrow> nat \<Rightarrow> nat" where
  "advance xs key i = (if i < length xs \<and> xs ! i < key then advance xs key (i + 1) else i)"
  by pat_completeness auto
termination
  by (relation "measure (\<lambda>(xs, key, i). length xs - i)") auto

declare advance.simps [simp del]

text \<open>
  The outer loop \<^verbatim>\<open>for p := 0; p <= size; p++\<close>, which stores \<^verbatim>\<open>uint32(i)\<close> at index
  \<open>p\<close>. \<open>geLoop xs k p i\<close> is the part of the array written from prefix \<open>p\<close> on, with
  \<open>k\<close> prefixes left and the cursor at \<open>i\<close>; \<open>geTable\<close> is the whole array of
  \<open>size + 1\<close> entries (\<^verbatim>\<open>startGE\<close> on the starts, \<^verbatim>\<open>endGE\<close> on the ends).
\<close>

fun geLoop :: "u32 list \<Rightarrow> nat \<Rightarrow> nat \<Rightarrow> nat \<Rightarrow> u32 list" where
  "geLoop xs 0 p i = []"
| "geLoop xs (Suc k) p i =
     (let key = keyOf p; i' = advance xs key i
      in word_of_nat i' # geLoop xs k (p + 1) i')"

definition geTable :: "u32 list \<Rightarrow> u32 list" where
  "geTable xs = geLoop xs (bucketCount + 1) 0 0"

definition buildBuckets16 :: "v4Table \<Rightarrow> v4Table" where
  "buildBuckets16 t =
     (if length (starts t) = 0 then t\<lparr>bucketLo16 := None, bucketHi16 := None\<rparr>
      else
        let startGE = geTable (starts t);
            endGE = geTable (ends t);
            lo = map (\<lambda>p. endGE ! p) [0..<bucketCount];
            hi = map (\<lambda>p. startGE ! (p + 1)) [0..<bucketCount]
        in t\<lparr>bucketLo16 := Some lo, bucketHi16 := Some hi\<rparr>)"

section \<open>Table lookup (\<^verbatim>\<open>v4Table.lookup\<close>)\<close>

text \<open>\<^verbatim>\<open>const linearThreshold = 32\<close>.\<close>

definition linearThreshold :: nat where
  "linearThreshold = 32"

text \<open>
  The tail that both search paths share once an index with \<^verbatim>\<open>starts[idx] <= ip\<close> is found:
  the label is read, a dense table misses on \<^verbatim>\<open>labelNone\<close>, a sparse one on
  \<^verbatim>\<open>ip > end\<close>. \<open>None\<close> is the miss \<^verbatim>\<open>(0, false)\<close>, \<open>Some l\<close> the hit \<^verbatim>\<open>(l, true)\<close>.
\<close>

definition finish :: "v4Table \<Rightarrow> u32 \<Rightarrow> nat \<Rightarrow> u32 option" where
  "finish t ip idx =
     (let label = labels t ! idx in
      if dense t then (if label = labelNone then None else Some label)
      else (let e = ends t ! idx in if ip > e then None else Some label))"

text \<open>
  The linear path \<^verbatim>\<open>for idx := hi - 1; idx >= lo; idx--\<close>. The last argument is
  \<open>idx + 1\<close>, so that \<open>0\<close> is the state \<open>idx = -1\<close> that ends the loop.
\<close>

fun scanDown :: "v4Table \<Rightarrow> u32 \<Rightarrow> nat \<Rightarrow> nat \<Rightarrow> u32 option" where
  "scanDown t ip lo 0 = None"
| "scanDown t ip lo (Suc idx) =
     (if idx < lo then None
      else if starts t ! idx > ip then scanDown t ip lo idx
      else finish t ip idx)"

text \<open>The binary path \<^verbatim>\<open>for i < j { h := (i + j) >> 1; ... }\<close>; it returns the final \<open>i\<close>.\<close>

function bsearch :: "u32 list \<Rightarrow> u32 \<Rightarrow> nat \<Rightarrow> nat \<Rightarrow> nat" where
  "bsearch ss ip i j =
     (if i < j then
        (let h = (i + j) div 2 in
         if ss ! h > ip then bsearch ss ip i h else bsearch ss ip (h + 1) j)
      else i)"
  by pat_completeness auto
termination
  by (relation "measure (\<lambda>(ss, ip, i, j). j - i)") auto

declare bsearch.simps [simp del]

text \<open>
  The bucket narrowing at the head of \<open>lookup\<close>. With both bucket arrays present the
  window is read at \<^verbatim>\<open>p := int(ip >> 16)\<close> (a bounds-checked index, so an array that is
  too short panics), \<open>hi\<close> is clamped to the table length, and an empty window is the
  early miss \<open>Inr None\<close>. The clamp \<^verbatim>\<open>if lo < 0\<close> never fires where \<^verbatim>\<open>int\<close> has 64
  bits, which is what the model takes. Without bucket arrays the window is the whole table.
\<close>

definition bucketWindow :: "v4Table \<Rightarrow> u32 \<Rightarrow> panic + (nat \<times> nat) option" where
  "bucketWindow t ip =
     (case (bucketLo16 t, bucketHi16 t) of
        (Some blo, Some bhi) \<Rightarrow>
          (let p = unat (drop_bit 16 ip) in
           if length blo \<le> p \<or> length bhi \<le> p then Inl IndexOutOfRange
           else
             let lo = unat (blo ! p);
                 hi = unat (bhi ! p);
                 hi = (if hi > length (starts t) then length (starts t) else hi)
             in if lo \<ge> hi then Inr None else Inr (Some (lo, hi)))
      | _ \<Rightarrow> Inr (Some (0, length (starts t))))"

text \<open>
  The search inside the window: the descending scan when \<^verbatim>\<open>hi - lo <= linearThreshold\<close>,
  the binary search otherwise, where \<^verbatim>\<open>idx := i - 1\<close> misses when \<^verbatim>\<open>idx < lo\<close>.
\<close>

definition searchWindow :: "v4Table \<Rightarrow> u32 \<Rightarrow> nat \<Rightarrow> nat \<Rightarrow> u32 option" where
  "searchWindow t ip lo hi =
     (if hi - lo \<le> linearThreshold then scanDown t ip lo hi
      else
        (let i = bsearch (starts t) ip lo hi in
         if i \<le> lo then None else finish t ip (i - 1)))"

text \<open>
  \<^verbatim>\<open>func (t v4Table) lookup(ip uint32) (uint32, bool)\<close>. The reads through
  \<^verbatim>\<open>unsafe.Pointer\<close> are at indices inside \<open>[lo, hi)\<close>, below the length of \<open>starts\<close>;
  the loader checks that the three arrays have that same length.
\<close>

definition lookup :: "v4Table \<Rightarrow> u32 \<Rightarrow> panic + u32 option" where
  "lookup t ip =
     (if length (starts t) = 0 then Inr None
      else
        (case bucketWindow t ip of
           Inl e \<Rightarrow> Inl e
         | Inr None \<Rightarrow> Inr None
         | Inr (Some (lo, hi)) \<Rightarrow> Inr (searchWindow t ip lo hi)))"

text \<open>What \<^verbatim>\<open>parseV4v2\<close> does to each table: \<^verbatim>\<open>detectDense()\<close>, then \<^verbatim>\<open>buildBuckets16()\<close>.\<close>

definition openTable :: "v4Table \<Rightarrow> v4Table" where
  "openTable t = buildBuckets16 (detectDense t)"

section \<open>Vocabulary of the statements\<close>

text \<open>The first index whose element is not below the key (the length when there is none).\<close>

definition firstGE :: "u32 list \<Rightarrow> u32 \<Rightarrow> nat" where
  "firstGE xs key = length (takeWhile (\<lambda>x. x < key) xs)"

text \<open>The cursor after the outer loop has handled prefixes \<open>p, \<dots>, p + j\<close>, entered with cursor \<open>i\<close>.\<close>

fun cursorFrom :: "u32 list \<Rightarrow> nat \<Rightarrow> nat \<Rightarrow> nat \<Rightarrow> nat" where
  "cursorFrom xs p i 0 = advance xs (keyOf p) i"
| "cursorFrom xs p i (Suc j) = advance xs (keyOf (p + Suc j)) (cursorFrom xs p i j)"

text \<open>
  An interval table as the lookup needs it: three arrays of one length, the starts strictly
  ascending, the ends non-decreasing (no interval reaches beyond a later one, so none is
  nested in an earlier one), and any two intervals that overlap carry the same label.
\<close>

definition sortedTable :: "v4Table \<Rightarrow> bool" where
  "sortedTable t \<longleftrightarrow>
     length (ends t) = length (starts t) \<and> length (labels t) = length (starts t)
     \<and> (\<forall>i. i + 1 < length (starts t) \<longrightarrow> starts t ! i < starts t ! (i + 1))
     \<and> (\<forall>i. i + 1 < length (starts t) \<longrightarrow> ends t ! i \<le> ends t ! (i + 1))
     \<and> (\<forall>i j. i < j \<and> j < length (starts t) \<and> starts t ! j \<le> ends t ! i
            \<longrightarrow> labels t ! i = labels t ! j)"

text \<open>Interval \<open>i\<close> of the table contains the address.\<close>

definition containsAt :: "v4Table \<Rightarrow> u32 \<Rightarrow> nat \<Rightarrow> bool" where
  "containsAt t ip i \<longleftrightarrow> i < length (starts t) \<and> starts t ! i \<le> ip \<and> ip \<le> ends t ! i"

section \<open>The database and its lookups\<close>

text \<open>Go strings are byte sequences.\<close>

type_synonym gostring = "u8 list"

type_synonym ProviderKind = u8

definition ProviderKindUnknown :: ProviderKind where "ProviderKindUnknown = 0"
definition ProviderKindISP :: ProviderKind where "ProviderKindISP = 1"
definition ProviderKindCloud :: ProviderKind where "ProviderKindCloud = 2"

text \<open>
  \<^verbatim>\<open>netip.Addr\<close>: the zero value, an IPv4 address of four bytes, or an IPv6 address
  (zones are left out). \<^verbatim>\<open>As4\<close> panics on the zero value and on an IPv6 address that
  is not IPv4-mapped.
\<close>

datatype Addr = AddrZero | Addr4 u8 u8 u8 u8 | Addr6 "128 word"

fun Is4 :: "Addr \<Rightarrow> bool" where
  "Is4 (Addr4 a b c d) = True"
| "Is4 _ = False"

fun As4 :: "Addr \<Rightarrow> panic + (u8 \<times> u8 \<times> u8 \<times> u8)" where
  "As4 (Addr4 a b c d) = Inr (a, b, c, d)"
| "As4 (Addr6 w) =
     (if drop_bit 32 w = 0xFFFF
      then Inr (ucast (drop_bit 24 w), ucast (drop_bit 16 w), ucast (drop_bit 8 w), ucast w)
      else Inl As4OfNonIPv4)"
| "As4 AddrZero = Inl As4OfNonIPv4"

record label2 =
  Code :: u32
  Name :: u32

record providerLabel =
  Key :: u32
  Name :: u32
  Kind :: u32

record Result =
  IP :: Addr
  CountryCode :: gostring
  CountryName :: gostring
  CNProvinceCode :: gostring
  CNProvinceName :: gostring
  CNCityCode :: gostring
  CNCityName :: gostring
  ProviderKey :: gostring
  ProviderName :: gostring
  ProviderKind :: ProviderKind

record ResultIDs =
  IP :: Addr
  CountryID :: u32
  CNProvinceID :: u32
  CNCityID :: u32
  ProviderID :: u32
  ProviderKind :: ProviderKind

record v4DB =
  stringsData :: "u8 list"
  stringsStart :: "u32 list"
  stringsEnd :: "u32 list"
  countryLabels :: "label2 list"
  cnLabels :: "label2 list"
  providerLabels :: "providerLabel list"
  country :: v4Table
  cnProv :: v4Table
  cnCity :: v4Table
  provider :: v4Table
  providerByKey :: "gostring \<rightharpoonup> u32"
  providerKindByKey :: "gostring \<rightharpoonup> ProviderKind"

text \<open>\<^verbatim>\<open>DB\<close> without the file handle; a nil \<^verbatim>\<open>*v4DB\<close> is \<open>None\<close>.\<close>

record DB =
  data :: "u8 list"
  v4 :: "v4DB option"

definition clearResult :: "Result \<Rightarrow> Result" where
  "clearResult dst = dst\<lparr>Result.IP := AddrZero, CountryCode := [], CountryName := [],
     CNProvinceCode := [], CNProvinceName := [], CNCityCode := [], CNCityName := [],
     ProviderKey := [], ProviderName := [], Result.ProviderKind := ProviderKindUnknown\<rparr>"

definition clearResultIDs :: "ResultIDs \<Rightarrow> ResultIDs" where
  "clearResultIDs dst = dst\<lparr>ResultIDs.IP := AddrZero, CountryID := IDNone,
     CNProvinceID := IDNone, CNCityID := IDNone, ProviderID := IDNone,
     ResultIDs.ProviderKind := ProviderKindUnknown\<rparr>"

text \<open>Sequencing of steps that can panic.\<close>

definition bindP :: "panic + 'a \<Rightarrow> ('a \<Rightarrow> panic + 'b) \<Rightarrow> panic + 'b" where
  "bindP m f = (case m of Inl p \<Rightarrow> Inl p | Inr x \<Rightarrow> f x)"

text \<open>
  \<^verbatim>\<open>v.str(i)\<close>: the index is checked against \<open>stringsStart\<close> only, so the read of
  \<open>stringsEnd[i]\<close> is a bounds-checked access of its own; \<open>hi \<le> uint32(len(stringsData))\<close>
  keeps the slice expression in range.
\<close>

definition str :: "v4DB \<Rightarrow> u32 \<Rightarrow> panic + gostring" where
  "str v i =
     (if i \<ge> word_of_nat (length (stringsStart v)) then Inr []
      else
        let lo = stringsStart v ! unat i in
        if length (stringsEnd v) \<le> unat i then Inl IndexOutOfRange
        else
          let hi = stringsEnd v ! unat i in
          if lo > hi \<or> hi > word_of_nat (length (stringsData v)) then Inr []
          else Inr (take (unat hi - unat lo) (drop (unat lo) (stringsData v))))"

definition countryLabel :: "v4DB \<Rightarrow> u32 \<Rightarrow> panic + (gostring \<times> gostring)" where
  "countryLabel v idx =
     (if idx \<ge> word_of_nat (length (countryLabels v)) then Inr ([], [])
      else
        let l = countryLabels v ! unat idx in
        bindP (str v (Code l)) (\<lambda>code.
        bindP (str v (label2.Name l)) (\<lambda>name. Inr (code, name))))"

definition cnLabel :: "v4DB \<Rightarrow> u32 \<Rightarrow> panic + (gostring \<times> gostring)" where
  "cnLabel v idx =
     (if idx \<ge> word_of_nat (length (cnLabels v)) then Inr ([], [])
      else
        let l = cnLabels v ! unat idx in
        bindP (str v (Code l)) (\<lambda>code.
        bindP (str v (label2.Name l)) (\<lambda>name. Inr (code, name))))"

text \<open>\<^verbatim>\<open>v.providerLabel(idx)\<close> (the record type has the name).\<close>

definition providerLabelOf :: "v4DB \<Rightarrow> u32 \<Rightarrow> panic + (gostring \<times> gostring \<times> ProviderKind)" where
  "providerLabelOf v idx =
     (if idx \<ge> word_of_nat (length (providerLabels v)) then Inr ([], [], ProviderKindUnknown)
      else
        let l = providerLabels v ! unat idx in
        bindP (str v (Key l)) (\<lambda>key.
        bindP (str v (providerLabel.Name l)) (\<lambda>name. Inr (key, name, ucast (Kind l)))))"

text \<open>
  \<^verbatim>\<open>lookupIntoU32\<close> and \<^verbatim>\<open>lookupIDsIntoU32\<close>: the destination is passed in and
  returned; the second component is the pair \<^verbatim>\<open>(matched, err)\<close>, which in both
  functions is always \<^verbatim>\<open>(matched, nil)\<close>.
\<close>

definition lookupIntoU32 :: "v4DB \<Rightarrow> u32 \<Rightarrow> Result \<Rightarrow> panic + (Result \<times> (error + bool))" where
  "lookupIntoU32 v ip dst =
     bindP (lookup (country v) ip) (\<lambda>r.
     bindP (case r of
              Some label \<Rightarrow>
                bindP (countryLabel v label) (\<lambda>(code, name).
                  Inr (dst\<lparr>CountryCode := code, CountryName := name\<rparr>, True))
            | None \<Rightarrow> Inr (dst, False)) (\<lambda>(dst, matched).
     bindP (lookup (cnCity v) ip) (\<lambda>r.
     bindP (case r of
              Some label \<Rightarrow>
                bindP (cnLabel v label) (\<lambda>(code, name).
                  Inr (dst\<lparr>CNCityCode := code, CNCityName := name\<rparr>, True))
            | None \<Rightarrow>
                bindP (lookup (cnProv v) ip) (\<lambda>r.
                  case r of
                    Some label \<Rightarrow>
                      bindP (cnLabel v label) (\<lambda>(code, name).
                        Inr (dst\<lparr>CNProvinceCode := code, CNProvinceName := name\<rparr>, True))
                  | None \<Rightarrow> Inr (dst, matched))) (\<lambda>(dst, matched).
     bindP (lookup (provider v) ip) (\<lambda>r.
     bindP (case r of
              Some label \<Rightarrow>
                bindP (providerLabelOf v label) (\<lambda>(key, name, kind).
                  Inr (dst\<lparr>ProviderKey := key, ProviderName := name,
                         Result.ProviderKind := kind\<rparr>, True))
            | None \<Rightarrow> Inr (dst, matched)) (\<lambda>(dst, matched).
     Inr (dst, Inr matched)))))))"

definition lookupIDsIntoU32 :: "v4DB \<Rightarrow> u32 \<Rightarrow> ResultIDs \<Rightarrow> panic + (ResultIDs \<times> (error + bool))" where
  "lookupIDsIntoU32 v ip dst =
     bindP (lookup (country v) ip) (\<lambda>r.
     bindP (case r of
              Some label \<Rightarrow> Inr (dst\<lparr>CountryID := label\<rparr>, True)
            | None \<Rightarrow> Inr (dst, False)) (\<lambda>(dst, matched).
     bindP (lookup (cnCity v) ip) (\<lambda>r.
     bindP (case r of
              Some label \<Rightarrow> Inr (dst\<lparr>CNCityID := label\<rparr>, True)
            | None \<Rightarrow>
                bindP (lookup (cnProv v) ip) (\<lambda>r.
                  case r of
                    Some label \<Rightarrow> Inr (dst\<lparr>CNProvinceID := label\<rparr>, True)
                  | None \<Rightarrow> Inr (dst, matched))) (\<lambda>(dst, matched).
     bindP (lookup (provider v) ip) (\<lambda>r.
     bindP (case r of
              Some label \<Rightarrow>
                (let dst = dst\<lparr>ProviderID := label\<rparr>;
                     dst = (if label < word_of_nat (length (providerLabels v))
                            then dst\<lparr>ResultIDs.ProviderKind :=
                                   ucast (Kind (providerLabels v ! unat label))\<rparr>
                            else dst)
                 in Inr (dst, True))
            | None \<Rightarrow> Inr (dst, matched)) (\<lambda>(dst, matched).
     Inr (dst, Inr matched)))))))"

text \<open>\<^verbatim>\<open>a<<24 | b<<16 | c<<8 | d\<close>.\<close>

definition packIPv4 :: "u8 \<times> u8 \<times> u8 \<times> u8 \<Rightarrow> u32" where
  "packIPv4 ip4 = (case ip4 of (a, b, c, d) \<Rightarrow>
     push_bit 24 (ucast a) OR push_bit 16 (ucast b) OR push_bit 8 (ucast c) OR ucast d)"

definition lookupInto :: "v4DB \<Rightarrow> Addr \<Rightarrow> Result \<Rightarrow> panic + (Result \<times> (error + bool))" where
  "lookupInto v addr dst = bindP (As4 addr) (\<lambda>ip4. lookupIntoU32 v (packIPv4 ip4) dst)"

definition lookupIDsInto :: "v4DB \<Rightarrow> Addr \<Rightarrow> ResultIDs \<Rightarrow> panic + (ResultIDs \<times> (error + bool))" where
  "lookupIDsInto v addr dst = bindP (As4 addr) (\<lambda>ip4. lookupIDsIntoU32 v (packIPv4 ip4) dst)"

text \<open>
  The exported lookups. The receiver and the destination are pointers and may be nil
  (\<open>None\<close>); the result is the destination after the call with the pair
  \<^verbatim>\<open>(matched, err)\<close>: \<open>Inl err\<close> for a non-nil error (then \<open>matched\<close> is false),
  \<open>Inr matched\<close> otherwise.
\<close>

definition LookupAddrInto ::
    "DB option \<Rightarrow> Addr \<Rightarrow> Result option \<Rightarrow> panic + (Result option \<times> (error + bool))" where
  "LookupAddrInto db addr dst =
     (case db of None \<Rightarrow> Inr (dst, Inl ErrInvalidDB) | Some d \<Rightarrow>
      case v4 d of None \<Rightarrow> Inr (dst, Inl ErrInvalidDB) | Some v \<Rightarrow>
      case dst of None \<Rightarrow> Inr (None, Inl ErrNilResult) | Some r \<Rightarrow>
        if \<not> Is4 addr then Inr (Some (clearResult r), Inl ErrUnsupportedIP)
        else
          let r = clearResult r; r = r\<lparr>Result.IP := addr\<rparr> in
          bindP (lookupInto v addr r) (\<lambda>(r, res).
            case res of
              Inl err \<Rightarrow> Inr (Some (clearResult r), Inl err)
            | Inr matched \<Rightarrow> Inr (Some r, Inr matched)))"

definition LookupAddrIDsInto ::
    "DB option \<Rightarrow> Addr \<Rightarrow> ResultIDs option \<Rightarrow> panic + (ResultIDs option \<times> (error + bool))" where
  "LookupAddrIDsInto db addr dst =
     (case db of None \<Rightarrow> Inr (dst, Inl ErrInvalidDB) | Some d \<Rightarrow>
      case v4 d of None \<Rightarrow> Inr (dst, Inl ErrInvalidDB) | Some v \<Rightarrow>
      case dst of None \<Rightarrow> Inr (None, Inl ErrNilResult) | Some r \<Rightarrow>
        if \<not> Is4 addr then Inr (Some (clearResultIDs r), Inl ErrUnsupportedIP)
        else
          let r = clearResultIDs r; r = r\<lparr>ResultIDs.IP := addr\<rparr> in
          bindP (lookupIDsInto v addr r) (\<lambda>(r, res).
            case res of
              Inl err \<Rightarrow> Inr (Some (clearResultIDs r), Inl err)
            | Inr matched \<Rightarrow> Inr (Some r, Inr matched)))"

definition LookupIPv4Uint32Into ::
    "DB option \<Rightarrow> u32 \<Rightarrow> Result option \<Rightarrow> panic + (Result option \<times> (error + bool))" where
  "LookupIPv4Uint32Into db ip dst =
     (case db of None \<Rightarrow> Inr (dst, Inl ErrInvalidDB) | Some d \<Rightarrow>
      case v4 d of None \<Rightarrow> Inr (dst, Inl ErrInvalidDB) | Some v \<Rightarrow>
      case dst of None \<Rightarrow> Inr (None, Inl ErrNilResult) | Some r \<Rightarrow>
        bindP (lookupIntoU32 v ip (clearResult r)) (\<lambda>(r, res). Inr (Some r, res)))"

definition LookupIPv4Uint32IDsInto ::
    "DB option \<Rightarrow> u32 \<Rightarrow> ResultIDs option \<Rightarrow> panic + (ResultIDs option \<times> (error + bool))" where
  "LookupIPv4Uint32IDsInto db ip dst =
     (case db of None \<Rightarrow> Inr (dst, Inl ErrInvalidDB) | Some d \<Rightarrow>
      case v4 d of None \<Rightarrow> Inr (dst, Inl ErrInvalidDB) | Some v \<Rightarrow>
      case dst of None \<Rightarrow> Inr (None, Inl ErrNilResult) | Some r \<Rightarrow>
        bindP (lookupIDsIntoU32 v ip (clearResultIDs r)) (\<lambda>(r, res). Inr (Some r, res)))"

text \<open>
  What opening establishes and the lookups rely on: the two offset arrays of the strings
  table have one length, and each table carries the dense flag and the bucket arrays
  computed from its own arrays.
\<close>

definition indexed :: "v4Table \<Rightarrow> bool" where
  "indexed t \<longleftrightarrow> openTable t = t"



section \<open>Properties\<close>

subsection \<open>Dense detection\<close>

lemma denseScan_iff:
  "denseScan ss es i \<longleftrightarrow>
     (\<forall>k. i \<le> k \<and> k < length ss - 1 \<longrightarrow> es ! k \<noteq> maxU32 \<and> es ! k + 1 = ss ! (k + 1))"
proof (induction ss es i rule: denseScan.induct)
  case (1 ss es i)
  show ?case
  proof (cases "i < length ss - 1")
    case False
    then show ?thesis by (auto simp: denseScan.simps [of ss es i])
  next
    case True
    show ?thesis
    proof (cases "es ! i = maxU32 \<or> es ! i + 1 \<noteq> ss ! (i + 1)")
      case True
      with \<open>i < length ss - 1\<close> show ?thesis
        by (auto simp: denseScan.simps [of ss es i] Let_def)
    next
      case False
      with \<open>i < length ss - 1\<close> have "denseScan ss es i = denseScan ss es (i + 1)"
        by (simp add: denseScan.simps [of ss es i] Let_def)
      also have "\<dots> \<longleftrightarrow> (\<forall>k. i + 1 \<le> k \<and> k < length ss - 1 \<longrightarrow>
          es ! k \<noteq> maxU32 \<and> es ! k + 1 = ss ! (k + 1))"
        using "1.IH" \<open>i < length ss - 1\<close> False by simp
      also have "\<dots> \<longleftrightarrow> (\<forall>k. i \<le> k \<and> k < length ss - 1 \<longrightarrow>
          es ! k \<noteq> maxU32 \<and> es ! k + 1 = ss ! (k + 1))"
      proof -
        have "k = i \<or> i + 1 \<le> k" if "i \<le> k" for k using that by arith
        then show ?thesis using False by (metis add_leD1)
      qed
      finally show ?thesis .
    qed
  qed
qed

lemma unat_maxU32: "unat maxU32 = 4294967295"
  by (simp add: maxU32_def unsigned_minus_1_eq_mask mask_eq_exp_minus_1)

lemma unat_u32_less: "unat (w :: u32) < 4294967296"
  using unsigned_less [of w] by simp

lemma eq_maxU32_iff: "e = maxU32 \<longleftrightarrow> unat e = 4294967295"
  using unat_maxU32 by (metis word_unat_eq_iff)

lemma unat_succ_u32: "unat (e :: u32) + 1 < 4294967296 \<Longrightarrow> unat (e + 1) = unat e + 1"
  using unat_add_lem [of e 1] by simp

lemma succ_no_wrap_iff:
  fixes e s :: u32
  shows "e \<noteq> maxU32 \<and> e + 1 = s \<longleftrightarrow> unat e + 1 = unat s"
proof
  assume h: "e \<noteq> maxU32 \<and> e + 1 = s"
  then have "unat e \<noteq> 4294967295" by (simp add: eq_maxU32_iff)
  with unat_u32_less [of e] have "unat e + 1 < 4294967296" by arith
  then have "unat (e + 1) = unat e + 1" by (rule unat_succ_u32)
  with h show "unat e + 1 = unat s" by simp
next
  assume h: "unat e + 1 = unat s"
  with unat_u32_less [of s] have lt: "unat e + 1 < 4294967296" by simp
  then have ne: "e \<noteq> maxU32" by (simp add: eq_maxU32_iff)
  have "unat (e + 1) = unat e + 1" using lt by (rule unat_succ_u32)
  with h have "unat (e + 1) = unat s" by simp
  then have "e + 1 = s" by (simp add: word_unat_eq_iff)
  with ne show "e \<noteq> maxU32 \<and> e + 1 = s" by simp
qed

lemma detectDense_dense_iff:
  "dense (detectDense t) \<longleftrightarrow>
     (starts t \<noteq> [] \<and> length (starts t) = length (ends t) \<and> length (starts t) = length (labels t)
      \<and> starts t ! 0 = 0
      \<and> ends t ! (length (ends t) - 1) = maxU32
      \<and> (\<forall>i. i < length (starts t) - 1 \<longrightarrow> unat (ends t ! i) + 1 = unat (starts t ! (i + 1))))"
proof -
  have scan: "denseScan (starts t) (ends t) 0 \<longleftrightarrow>
      (\<forall>i. i < length (starts t) - 1 \<longrightarrow> unat (ends t ! i) + 1 = unat (starts t ! (i + 1)))"
    by (simp add: denseScan_iff succ_no_wrap_iff)
  show ?thesis by (auto simp: detectDense_def scan)
qed

text \<open>
  Claim C4. For a table whose three arrays have the same length, the flag that
  \<open>detectDense\<close> stores is true exactly when the table is non-empty, its first start is
  0, its last end is \<open>2^32 - 1\<close> and every end is followed (without wrap-around) by the
  next start.
\<close>

theorem detectDense_iff_tiling:
  assumes "length (starts t) = length (ends t)" and "length (starts t) = length (labels t)"
  shows "dense (detectDense t) \<longleftrightarrow>
           (starts t \<noteq> [] \<and> starts t ! 0 = 0
            \<and> unat (ends t ! (length (ends t) - 1)) = 2 ^ 32 - 1
            \<and> (\<forall>i. i < length (starts t) - 1 \<longrightarrow>
                  unat (ends t ! i) + 1 = unat (starts t ! (i + 1))))"
  using assms by (simp add: detectDense_dense_iff eq_maxU32_iff)

theorem detectDense_iff_tiling_witness:
  "length [0, 16 :: u32] = length [15, 0xFFFFFFFF :: u32]
   \<and> length [0, 16 :: u32] = length [3, 4 :: u32]
   \<and> dense (detectDense \<lparr>starts = [0, 16], ends = [15, 0xFFFFFFFF], labels = [3, 4],
        dense = False, bucketLo16 = None, bucketHi16 = None\<rparr>)
   \<and> \<not> dense (detectDense \<lparr>starts = [0, 16], ends = [14, 0xFFFFFFFF], labels = [3, 4],
        dense = True, bucketLo16 = None, bucketHi16 = None\<rparr>)"
  using detectDense_iff_tiling [of "\<lparr>starts = [0, 16], ends = [15, 0xFFFFFFFF], labels = [3, 4],
      dense = False, bucketLo16 = None, bucketHi16 = None\<rparr>"]
    detectDense_iff_tiling [of "\<lparr>starts = [0, 16], ends = [14, 0xFFFFFFFF], labels = [3, 4],
      dense = True, bucketLo16 = None, bucketHi16 = None\<rparr>"]
  by (simp add: less_Suc_eq)

subsection \<open>Overlap validation\<close>

lemma validateFrom_None_iff:
  "validateFrom entries i = None \<longleftrightarrow> (\<forall>k. i \<le> k \<and> k < length entries \<longrightarrow> \<not> overlapAt entries k)"
proof (induction entries i rule: validateFrom.induct)
  case (1 entries i)
  show ?case
  proof (cases "i < length entries")
    case False
    then show ?thesis by (auto simp: validateFrom.simps [of entries i])
  next
    case True
    show ?thesis
    proof (cases "overlapAt entries i")
      case True
      with \<open>i < length entries\<close> show ?thesis
        by (auto simp: validateFrom.simps [of entries i] Let_def overlapAt_def)
    next
      case False
      with True have "validateFrom entries i = validateFrom entries (i + 1)"
        by (auto simp: validateFrom.simps [of entries i] Let_def overlapAt_def)
      moreover have "validateFrom entries (i + 1) = None \<longleftrightarrow>
          (\<forall>k. i + 1 \<le> k \<and> k < length entries \<longrightarrow> \<not> overlapAt entries k)"
        using "1.IH" True False by (auto simp: overlapAt_def)
      moreover have "(\<forall>k. i + 1 \<le> k \<and> k < length entries \<longrightarrow> \<not> overlapAt entries k) \<longleftrightarrow>
          (\<forall>k. i \<le> k \<and> k < length entries \<longrightarrow> \<not> overlapAt entries k)"
      proof -
        have "k = i \<or> i + 1 \<le> k" if "i \<le> k" for k using that by arith
        then show ?thesis using False by (metis add_leD1)
      qed
      ultimately show ?thesis by simp
    qed
  qed
qed

lemma validateFrom_Some:
  "validateFrom entries i = Some e \<Longrightarrow>
     \<exists>k. i \<le> k \<and> k < length entries \<and> overlapAt entries k
        \<and> (\<forall>j. i \<le> j \<and> j < k \<longrightarrow> \<not> overlapAt entries j)
        \<and> e = ErrOverlap (entries ! (k - 1)) (entries ! k)"
proof (induction entries i rule: validateFrom.induct)
  case (1 entries i)
  from "1.prems" have lt: "i < length entries"
    by (auto simp: validateFrom.simps [of entries i] split: if_splits)
  show ?case
  proof (cases "overlapAt entries i")
    case True
    with lt "1.prems" have "e = ErrOverlap (entries ! (i - 1)) (entries ! i)"
      by (auto simp: validateFrom.simps [of entries i] Let_def overlapAt_def)
    with True lt show ?thesis by (intro exI [of _ i]) auto
  next
    case False
    with lt "1.prems" have "validateFrom entries (i + 1) = Some e"
      by (auto simp: validateFrom.simps [of entries i] Let_def overlapAt_def)
    with "1.IH" lt False obtain k where k: "i + 1 \<le> k" "k < length entries" "overlapAt entries k"
        "\<forall>j. i + 1 \<le> j \<and> j < k \<longrightarrow> \<not> overlapAt entries j"
        "e = ErrOverlap (entries ! (k - 1)) (entries ! k)"
      by (auto simp: overlapAt_def)
    have "\<not> overlapAt entries j" if "i \<le> j" "j < k" for j
    proof (cases "j = i")
      case True
      with False show ?thesis by simp
    next
      case False
      with that have "i + 1 \<le> j" by arith
      with k(4) that show ?thesis by blast
    qed
    with k show ?thesis by (intro exI [of _ k]) auto
  qed
qed

text \<open>
  Claim C6. On any entry list (in particular the concatenated list of a category once it
  is sorted by start), \<open>validateNoOverlapDifferentLabel\<close> returns an overlap error exactly
  when some consecutive pair \<open>(prev, cur)\<close> has \<open>Start cur \<le> End prev\<close> with different
  labels; the error names the first such pair. A consecutive overlap between entries of
  the same label never makes it fail.
\<close>

theorem validateNoOverlapDifferentLabel_fails_iff:
  "(validateNoOverlapDifferentLabel entries \<noteq> None \<longleftrightarrow>
      (\<exists>i. 1 \<le> i \<and> i < length entries
         \<and> Start (entries ! i) \<le> End (entries ! (i - 1))
         \<and> Label (entries ! i) \<noteq> Label (entries ! (i - 1))))
   \<and> (\<forall>e. validateNoOverlapDifferentLabel entries = Some e \<longrightarrow>
        (\<exists>i. 1 \<le> i \<and> i < length entries
           \<and> Start (entries ! i) \<le> End (entries ! (i - 1))
           \<and> Label (entries ! i) \<noteq> Label (entries ! (i - 1))
           \<and> e = ErrOverlap (entries ! (i - 1)) (entries ! i)))"
proof (intro conjI allI impI)
  show "validateNoOverlapDifferentLabel entries \<noteq> None \<longleftrightarrow>
      (\<exists>i. 1 \<le> i \<and> i < length entries
         \<and> Start (entries ! i) \<le> End (entries ! (i - 1))
         \<and> Label (entries ! i) \<noteq> Label (entries ! (i - 1)))"
    unfolding validateNoOverlapDifferentLabel_def validateFrom_None_iff overlapAt_def by blast
next
  fix e
  assume "validateNoOverlapDifferentLabel entries = Some e"
  then have "validateFrom entries 1 = Some e"
    by (simp add: validateNoOverlapDifferentLabel_def)
  from validateFrom_Some [OF this]
  show "\<exists>i. 1 \<le> i \<and> i < length entries
           \<and> Start (entries ! i) \<le> End (entries ! (i - 1))
           \<and> Label (entries ! i) \<noteq> Label (entries ! (i - 1))
           \<and> e = ErrOverlap (entries ! (i - 1)) (entries ! i)"
    unfolding overlapAt_def by blast
qed

theorem validateNoOverlapDifferentLabel_fails_iff_witness:
  "validateNoOverlapDifferentLabel
     [\<lparr>Start = 0x0A000000, End = 0x0AFFFFFF, Label = 0\<rparr>,
      \<lparr>Start = 0x0A000000, End = 0x0AFFFFFF, Label = 1\<rparr>]
   = Some (ErrOverlap \<lparr>Start = 0x0A000000, End = 0x0AFFFFFF, Label = 0\<rparr>
                      \<lparr>Start = 0x0A000000, End = 0x0AFFFFFF, Label = 1\<rparr>)
   \<and> validateNoOverlapDifferentLabel
     [\<lparr>Start = 0x0A000000, End = 0x0AFFFFFF, Label = 5\<rparr>,
      \<lparr>Start = 0x0A000010, End = 0x0A00001F, Label = 5\<rparr>] = None"
proof -
  let ?bad = "[\<lparr>Start = 0x0A000000, End = 0x0AFFFFFF, Label = 0\<rparr>,
      \<lparr>Start = 0x0A000000, End = 0x0AFFFFFF, Label = (1 :: u32)\<rparr>]"
  let ?ok = "[\<lparr>Start = 0x0A000000, End = 0x0AFFFFFF, Label = 5\<rparr>,
      \<lparr>Start = 0x0A000010, End = 0x0A00001F, Label = (5 :: u32)\<rparr>]"
  have "validateNoOverlapDifferentLabel ?bad \<noteq> None"
    using validateNoOverlapDifferentLabel_fails_iff [of ?bad]
    by (auto intro!: exI [of _ 1])
  then obtain e where e: "validateNoOverlapDifferentLabel ?bad = Some e" by blast
  with validateNoOverlapDifferentLabel_fails_iff [of ?bad]
  have "e = ErrOverlap (?bad ! 0) (?bad ! 1)"
    by (auto simp: less_Suc_eq)
  moreover have "validateNoOverlapDifferentLabel ?ok = None"
    using validateNoOverlapDifferentLabel_fails_iff [of ?ok]
    by (auto simp: less_Suc_eq)
  ultimately show ?thesis using e by simp
qed

lemma takeWhile_drop_prefix:
  "i \<le> length (takeWhile P xs) \<Longrightarrow> takeWhile P (drop i xs) = drop i (takeWhile P xs)"
proof (induction xs arbitrary: i)
  case Nil
  then show ?case by simp
next
  case (Cons x xs)
  then show ?case by (cases i) (auto split: if_splits)
qed

lemma advance_eq: "i \<le> length xs \<Longrightarrow> advance xs key i = i + length (takeWhile (\<lambda>x. x < key) (drop i xs))"
proof (induction xs key i rule: advance.induct)
  case (1 xs key i)
  show ?case
  proof (cases "i < length xs \<and> xs ! i < key")
    case True
    then have d: "drop i xs = xs ! i # drop (Suc i) xs" by (simp add: Cons_nth_drop_Suc)
    from True have "advance xs key i = advance xs key (i + 1)"
      by (simp add: advance.simps [of xs key i])
    also have "\<dots> = i + 1 + length (takeWhile (\<lambda>x. x < key) (drop (i + 1) xs))"
      using "1.IH" True by simp
    finally show ?thesis using True d by simp
  next
    case False
    then have "advance xs key i = i" by (subst advance.simps) auto
    moreover have "takeWhile (\<lambda>x. x < key) (drop i xs) = []"
    proof (cases "i < length xs")
      case True
      with False have "\<not> xs ! i < key" by simp
      with True show ?thesis by (simp add: Cons_nth_drop_Suc [symmetric])
    next
      case False
      then show ?thesis by simp
    qed
    ultimately show ?thesis by simp
  qed
qed

lemma firstGE_le_length: "firstGE xs key \<le> length xs"
  by (simp add: firstGE_def length_takeWhile_le)

lemma advance_firstGE: "i \<le> firstGE xs key \<Longrightarrow> advance xs key i = firstGE xs key"
proof -
  assume h: "i \<le> firstGE xs key"
  then have "i \<le> length xs" using firstGE_le_length [of xs key] by simp
  then have "advance xs key i = i + length (takeWhile (\<lambda>x. x < key) (drop i xs))"
    by (rule advance_eq)
  also have "takeWhile (\<lambda>x. x < key) (drop i xs) = drop i (takeWhile (\<lambda>x. x < key) xs)"
    using h by (simp add: firstGE_def takeWhile_drop_prefix)
  finally show ?thesis using h by (simp add: firstGE_def)
qed

lemma firstGE_mono: "k1 \<le> k2 \<Longrightarrow> firstGE xs k1 \<le> firstGE xs k2"
  unfolding firstGE_def
proof (induction xs)
  case Nil
  then show ?case by simp
next
  case (Cons x xs)
  then show ?case by auto
qed

lemma firstGE_below: "j < firstGE xs key \<Longrightarrow> xs ! j < key"
proof -
  assume h: "j < firstGE xs key"
  then have "takeWhile (\<lambda>x. x < key) xs ! j = xs ! j"
    by (simp add: firstGE_def takeWhile_nth)
  moreover have "takeWhile (\<lambda>x. x < key) xs ! j \<in> set (takeWhile (\<lambda>x. x < key) xs)"
    using h by (simp add: firstGE_def)
  ultimately show ?thesis by (auto dest: set_takeWhileD)
qed

lemma firstGE_at: "firstGE xs key < length xs \<Longrightarrow> key \<le> xs ! firstGE xs key"
  using nth_length_takeWhile [of "\<lambda>x. x < key" xs] by (simp add: firstGE_def)

lemma firstGE_above:
  assumes "sorted xs" and "firstGE xs key \<le> j" and "j < length xs"
  shows "key \<le> xs ! j"
proof -
  from assms have "firstGE xs key < length xs" by simp
  then have "key \<le> xs ! firstGE xs key" by (rule firstGE_at)
  also have "\<dots> \<le> xs ! j" using assms by (simp add: sorted_nth_mono)
  finally show ?thesis .
qed

lemma cursorFrom_shift:
  "cursorFrom xs p i (Suc j) = cursorFrom xs (Suc p) (advance xs (keyOf p) i) j"
  by (induction j) simp_all

lemma length_geLoop [simp]: "length (geLoop xs k p i) = k"
  by (induction k arbitrary: p i) (simp_all add: Let_def)

lemma geLoop_nth: "j < k \<Longrightarrow> geLoop xs k p i ! j = word_of_nat (cursorFrom xs p i j)"
proof (induction k arbitrary: p i j)
  case 0
  then show ?case by simp
next
  case (Suc k)
  show ?case
  proof (cases j)
    case 0
    then show ?thesis by (simp add: Let_def)
  next
    case (Suc j')
    with Suc.prems have "j' < k" by simp
    from Suc.IH [OF this] Suc show ?thesis
      by (simp add: Let_def cursorFrom_shift del: cursorFrom.simps)
  qed
qed

lemma unat_of_nat_u32: "i < 4294967296 \<Longrightarrow> unat (word_of_nat i :: u32) = i"
  by (simp add: unsigned_of_nat take_bit_nat_eq_self)

lemma keyOf_unat: "p < 65536 \<Longrightarrow> unat (keyOf p) = p * 65536"
proof -
  assume h: "p < 65536"
  then have "p * 65536 < 4294967296" by simp
  then have "unat (word_of_nat (p * 65536) :: u32) = p * 65536" by (rule unat_of_nat_u32)
  moreover have "keyOf p = word_of_nat (p * 65536)"
    by (simp add: keyOf_def push_bit_eq_mult)
  ultimately show ?thesis by simp
qed

lemma keyOf_wrap: "keyOf 65536 = 0"
  by (simp add: keyOf_def)

lemma keyOf_mono: "p \<le> q \<Longrightarrow> q < 65536 \<Longrightarrow> keyOf p \<le> keyOf q"
  by (simp add: word_le_nat_alt keyOf_unat)

lemma cursorFrom_firstGE:
  "i \<le> firstGE xs (keyOf p) \<Longrightarrow> p + j < 65536 \<Longrightarrow> cursorFrom xs p i j = firstGE xs (keyOf (p + j))"
proof (induction j)
  case 0
  then show ?case by (simp add: advance_firstGE)
next
  case (Suc j)
  then have "cursorFrom xs p i j = firstGE xs (keyOf (p + j))" by simp
  moreover have "firstGE xs (keyOf (p + j)) \<le> firstGE xs (keyOf (p + Suc j))"
    using Suc.prems by (intro firstGE_mono keyOf_mono) simp_all
  ultimately show ?case by (simp add: advance_firstGE)
qed

lemma cursorFrom_top:
  "cursorFrom xs 0 0 65536 = firstGE xs (keyOf 65535)"
proof -
  have "cursorFrom xs 0 0 (Suc 65535) = advance xs (keyOf (0 + Suc 65535)) (cursorFrom xs 0 0 65535)"
    by (rule cursorFrom.simps(2))
  then have "cursorFrom xs 0 0 65536 = advance xs (keyOf 65536) (cursorFrom xs 0 0 65535)"
    by simp
  also have "\<dots> = cursorFrom xs 0 0 65535"
    by (subst advance.simps) (simp add: keyOf_wrap)
  also have "\<dots> = firstGE xs (keyOf 65535)"
    using cursorFrom_firstGE [of 0 xs 0 65535] by simp
  finally show ?thesis .
qed

lemma scanDown_none:
  "(\<forall>j. lo \<le> j \<and> j < hi \<longrightarrow> ip < starts t ! j) \<Longrightarrow> scanDown t ip lo hi = None"
  by (induction hi) auto

lemma scanDown_found:
  "lo \<le> idx \<Longrightarrow> idx < hi \<Longrightarrow> starts t ! idx \<le> ip
     \<Longrightarrow> (\<forall>j. idx < j \<and> j < hi \<longrightarrow> ip < starts t ! j)
     \<Longrightarrow> scanDown t ip lo hi = finish t ip idx"
proof (induction hi)
  case 0
  then show ?case by simp
next
  case (Suc hi)
  show ?case
  proof (cases "idx = hi")
    case True
    with Suc.prems show ?thesis by auto
  next
    case False
    with Suc.prems have lt: "idx < hi" by simp
    with Suc.prems have "ip < starts t ! hi" by simp
    moreover have "scanDown t ip lo hi = finish t ip idx"
      using Suc.IH Suc.prems lt by simp
    ultimately show ?thesis using lt Suc.prems by auto
  qed
qed

lemma bsearch_spec:
  assumes "sorted ss" and "i \<le> j" and "j \<le> length ss"
  shows "i \<le> bsearch ss ip i j \<and> bsearch ss ip i j \<le> j
         \<and> (\<forall>k. i \<le> k \<and> k < bsearch ss ip i j \<longrightarrow> ss ! k \<le> ip)
         \<and> (\<forall>k. bsearch ss ip i j \<le> k \<and> k < j \<longrightarrow> ip < ss ! k)"
  using assms
proof (induction ss ip i j rule: bsearch.induct)
  case (1 ss ip i j)
  show ?case
  proof (cases "i < j")
    case False
    with "1.prems" show ?thesis by (subst (1 2 3 4) bsearch.simps) auto
  next
    case True
    define h where "h = (i + j) div 2"
    have h: "i \<le> h" "h < j" using True by (auto simp: h_def)
    show ?thesis
    proof (cases "ip < ss ! h")
      case gt: True
      then have eq: "bsearch ss ip i j = bsearch ss ip i h"
        using True by (subst bsearch.simps) (simp add: h_def Let_def)
      have IH: "i \<le> bsearch ss ip i h \<and> bsearch ss ip i h \<le> h
         \<and> (\<forall>k. i \<le> k \<and> k < bsearch ss ip i h \<longrightarrow> ss ! k \<le> ip)
         \<and> (\<forall>k. bsearch ss ip i h \<le> k \<and> k < h \<longrightarrow> ip < ss ! k)"
        using "1.IH"(1) [OF True h_def gt] "1.prems" h by simp
      have up: "ip < ss ! k" if "h \<le> k" "k < j" for k
      proof -
        have "ss ! h \<le> ss ! k" using that "1.prems" by (intro sorted_nth_mono) auto
        with gt show ?thesis by simp
      qed
      have "ip < ss ! k" if "bsearch ss ip i h \<le> k" "k < j" for k
      proof (cases "k < h")
        case True
        with IH that show ?thesis by blast
      next
        case False
        then have "h \<le> k" by simp
        then show ?thesis using that(2) by (rule up)
      qed
      then show ?thesis unfolding eq using IH h by auto
    next
      case le: False
      then have eq: "bsearch ss ip i j = bsearch ss ip (h + 1) j"
        using True by (subst bsearch.simps) (simp add: h_def Let_def)
      have IH: "h + 1 \<le> bsearch ss ip (h + 1) j \<and> bsearch ss ip (h + 1) j \<le> j
         \<and> (\<forall>k. h + 1 \<le> k \<and> k < bsearch ss ip (h + 1) j \<longrightarrow> ss ! k \<le> ip)
         \<and> (\<forall>k. bsearch ss ip (h + 1) j \<le> k \<and> k < j \<longrightarrow> ip < ss ! k)"
        using "1.IH"(2) [OF True h_def le] "1.prems" h by simp
      have down: "ss ! k \<le> ip" if "k \<le> h" for k
      proof -
        have "ss ! k \<le> ss ! h" using that "1.prems" h by (intro sorted_nth_mono) auto
        with le show ?thesis by simp
      qed
      have "ss ! k \<le> ip" if "i \<le> k" "k < bsearch ss ip (h + 1) j" for k
      proof (cases "k \<le> h")
        case True
        then show ?thesis by (rule down)
      next
        case False
        then have "h + 1 \<le> k" by simp
        with IH that show ?thesis by blast
      qed
      then show ?thesis unfolding eq using IH h by auto
    qed
  qed
qed

lemma searchWindow_none:
  assumes "sorted (starts t)" and "lo \<le> hi" and "hi \<le> length (starts t)"
    and "\<forall>j. lo \<le> j \<and> j < hi \<longrightarrow> ip < starts t ! j"
  shows "searchWindow t ip lo hi = None"
proof (cases "hi - lo \<le> linearThreshold")
  case True
  then show ?thesis using assms(4) by (simp add: searchWindow_def scanDown_none)
next
  case False
  have "bsearch (starts t) ip lo hi \<le> lo"
  proof (rule ccontr)
    assume "\<not> bsearch (starts t) ip lo hi \<le> lo"
    then have lt: "lo < bsearch (starts t) ip lo hi" by simp
    from bsearch_spec [OF assms(1-3), of ip] lt have "starts t ! lo \<le> ip" "lo < hi"
      by auto
    with assms(4) show False by auto
  qed
  with False show ?thesis by (simp add: searchWindow_def)
qed

lemma searchWindow_found:
  assumes "sorted (starts t)" and "hi \<le> length (starts t)"
    and "lo \<le> idx" and "idx < hi" and "starts t ! idx \<le> ip"
    and "\<forall>j. idx < j \<and> j < hi \<longrightarrow> ip < starts t ! j"
  shows "searchWindow t ip lo hi = finish t ip idx"
proof (cases "hi - lo \<le> linearThreshold")
  case True
  then show ?thesis using assms by (simp add: searchWindow_def scanDown_found)
next
  case False
  define r where "r = bsearch (starts t) ip lo hi"
  have "lo \<le> hi" using assms by simp
  from bsearch_spec [OF assms(1) this assms(2), of ip]
  have r: "lo \<le> r" "r \<le> hi" "\<forall>k. lo \<le> k \<and> k < r \<longrightarrow> starts t ! k \<le> ip"
      "\<forall>k. r \<le> k \<and> k < hi \<longrightarrow> ip < starts t ! k"
    by (simp_all add: r_def)
  have "idx < r"
  proof (rule ccontr)
    assume "\<not> idx < r"
    then have "r \<le> idx" by simp
    with r(4) assms(4) have "ip < starts t ! idx" by blast
    with assms(5) show False by simp
  qed
  moreover have "r \<le> idx + 1"
  proof (rule ccontr)
    assume "\<not> r \<le> idx + 1"
    then have "idx < idx + 1" "idx + 1 < r" by simp_all
    with r(2,3) assms(3) have "starts t ! (idx + 1) \<le> ip" "idx + 1 < hi" by auto
    with assms(6) show False by auto
  qed
  ultimately have "r = idx + 1" by simp
  with False assms(3) show ?thesis by (simp add: searchWindow_def r_def [symmetric])
qed

lemma buildBuckets16_empty:
  "starts t = [] \<Longrightarrow> bucketLo16 (buildBuckets16 t) = None \<and> bucketHi16 (buildBuckets16 t) = None"
  by (simp add: buildBuckets16_def)

lemma buildBuckets16_fields [simp]:
  "starts (buildBuckets16 t) = starts t" "ends (buildBuckets16 t) = ends t"
  "labels (buildBuckets16 t) = labels t" "dense (buildBuckets16 t) = dense t"
  by (simp_all add: buildBuckets16_def Let_def)

lemma detectDense_fields [simp]:
  "starts (detectDense t) = starts t" "ends (detectDense t) = ends t"
  "labels (detectDense t) = labels t" "bucketLo16 (detectDense t) = bucketLo16 t"
  "bucketHi16 (detectDense t) = bucketHi16 t"
  by (simp_all add: detectDense_def)

lemma geTable_nth:
  assumes "p < 65536"
  shows "geTable xs ! p = word_of_nat (firstGE xs (keyOf p))"
proof -
  have "p < bucketCount + 1" using assms by (simp add: bucketCount_def)
  then have "geLoop xs (bucketCount + 1) 0 0 ! p = word_of_nat (cursorFrom xs 0 0 p)"
    by (rule geLoop_nth)
  moreover have "cursorFrom xs 0 0 p = firstGE xs (keyOf p)"
    using cursorFrom_firstGE [of 0 xs 0 p] assms by simp
  ultimately show ?thesis by (simp only: geTable_def)
qed

lemma geTable_nth_top: "geTable xs ! 65536 = word_of_nat (firstGE xs (keyOf 65535))"
proof -
  have "65536 < bucketCount + 1" by (simp add: bucketCount_def)
  then have "geLoop xs (bucketCount + 1) 0 0 ! 65536 = word_of_nat (cursorFrom xs 0 0 65536)"
    by (rule geLoop_nth)
  then show ?thesis by (simp only: geTable_def cursorFrom_top)
qed

lemma bucket_nth_lo:
  "p < bucketCount \<Longrightarrow> map (\<lambda>p. endGE ! p) [0..<bucketCount] ! p = endGE ! p"
  by (simp del: upt_rec_numeral)

lemma bucket_nth_hi:
  "p < bucketCount \<Longrightarrow> map (\<lambda>p. startGE ! (p + 1)) [0..<bucketCount] ! p = startGE ! (p + 1)"
  by (simp del: upt_rec_numeral)

lemma bucket_length:
  "length (map f [0..<bucketCount]) = 65536"
  by (simp add: bucketCount_def del: upt_rec_numeral)

lemma buildBuckets16_Some:
  assumes "starts t \<noteq> []"
  shows "bucketLo16 (buildBuckets16 t) = Some (map (\<lambda>p. geTable (ends t) ! p) [0..<bucketCount])"
    and "bucketHi16 (buildBuckets16 t) = Some (map (\<lambda>p. geTable (starts t) ! (p + 1)) [0..<bucketCount])"
  using assms by (simp_all add: buildBuckets16_def Let_def del: upt_rec_numeral)

lemma buildBuckets16_lo:
  assumes "starts t \<noteq> []" and "p < 65536"
  shows "\<exists>lo. bucketLo16 (buildBuckets16 t) = Some lo \<and> length lo = 65536
           \<and> lo ! p = word_of_nat (firstGE (ends t) (keyOf p))"
proof -
  have "p < bucketCount" using assms(2) by (simp add: bucketCount_def)
  then have "map (\<lambda>p. geTable (ends t) ! p) [0..<bucketCount] ! p = geTable (ends t) ! p"
    by (rule bucket_nth_lo)
  also have "\<dots> = word_of_nat (firstGE (ends t) (keyOf p))"
    using assms(2) by (rule geTable_nth)
  finally show ?thesis
    using buildBuckets16_Some(1) [OF assms(1)] bucket_length by blast
qed

lemma buildBuckets16_hi:
  assumes "starts t \<noteq> []" and "p < 65535"
  shows "\<exists>hi. bucketHi16 (buildBuckets16 t) = Some hi \<and> length hi = 65536
           \<and> hi ! p = word_of_nat (firstGE (starts t) (keyOf (p + 1)))"
proof -
  have "p < bucketCount" using assms(2) by (simp add: bucketCount_def)
  then have "map (\<lambda>p. geTable (starts t) ! (p + 1)) [0..<bucketCount] ! p = geTable (starts t) ! (p + 1)"
    by (rule bucket_nth_hi)
  also have "\<dots> = word_of_nat (firstGE (starts t) (keyOf (p + 1)))"
    using assms(2) by (intro geTable_nth) simp
  finally show ?thesis
    using buildBuckets16_Some(2) [OF assms(1)] bucket_length by blast
qed

lemma buildBuckets16_hi_top:
  assumes "starts t \<noteq> []"
  shows "\<exists>hi. bucketHi16 (buildBuckets16 t) = Some hi \<and> length hi = 65536
           \<and> hi ! 65535 = word_of_nat (firstGE (starts t) (keyOf 65535))"
proof -
  have "65535 < bucketCount" by (simp add: bucketCount_def)
  then have "map (\<lambda>p. geTable (starts t) ! (p + 1)) [0..<bucketCount] ! 65535
      = geTable (starts t) ! (65535 + 1)"
    by (rule bucket_nth_hi)
  also have "\<dots> = geTable (starts t) ! 65536" by simp
  also have "\<dots> = word_of_nat (firstGE (starts t) (keyOf 65535))"
    by (rule geTable_nth_top)
  finally show ?thesis
    using buildBuckets16_Some(2) [OF assms(1)] bucket_length by blast
qed

lemma unat_prefix: "unat (drop_bit 16 (ip :: u32)) = unat ip div 65536"
proof -
  have "unat (drop_bit 16 ip) = drop_bit 16 (unat ip)" by (rule unat_drop_bit_eq)
  also have "\<dots> = unat ip div 2 ^ 16" by (rule drop_bit_eq_div)
  finally show ?thesis by simp
qed

lemma prefix_less: "unat (drop_bit 16 (ip :: u32)) < 65536"
proof -
  have "unat ip < 65536 * 65536" using unat_u32_less [of ip] by simp
  then have "unat ip div 65536 < 65536" by (simp only: less_mult_imp_div_less)
  then show ?thesis by (simp only: unat_prefix)
qed

lemma keyOf_prefix_le: "keyOf (unat (drop_bit 16 (ip :: u32))) \<le> ip"
proof -
  have "unat (keyOf (unat (drop_bit 16 ip))) = unat (drop_bit 16 ip) * 65536"
    using prefix_less by (rule keyOf_unat)
  also have "\<dots> = unat ip div 65536 * 65536"
    by (simp only: unat_prefix)
  also have "\<dots> \<le> unat ip" by simp
  finally show ?thesis by (simp add: word_le_nat_alt)
qed

lemma keyOf_next_prefix_gt:
  assumes "unat (drop_bit 16 (ip :: u32)) < 65535"
  shows "ip < keyOf (unat (drop_bit 16 ip) + 1)"
proof -
  have "unat (keyOf (unat (drop_bit 16 ip) + 1)) = (unat (drop_bit 16 ip) + 1) * 65536"
    using assms by (intro keyOf_unat) simp
  also have "\<dots> = (unat ip div 65536 + 1) * 65536"
    by (simp only: unat_prefix)
  finally have eq: "unat (keyOf (unat (drop_bit 16 ip) + 1)) = (unat ip div 65536 + 1) * 65536" .
  define d where "d = unat ip div 65536"
  define m where "m = unat ip mod 65536"
  have "m < 65536" by (simp add: m_def)
  moreover have "unat ip = d * 65536 + m" by (simp add: d_def m_def)
  ultimately have "unat ip < (d + 1) * 65536" by simp
  then have "unat ip < (unat ip div 65536 + 1) * 65536" by (simp only: d_def)
  with eq have "unat ip < unat (keyOf (unat (drop_bit 16 ip) + 1))" by simp
  then show ?thesis by (simp add: word_less_nat_alt)
qed

lemma sortedTable_sorted_starts:
  assumes "sortedTable t"
  shows "sorted (starts t)"
proof -
  have "starts t ! i \<le> starts t ! Suc i" if "Suc i < length (starts t)" for i
    using assms that by (simp add: sortedTable_def less_imp_le)
  then show ?thesis by (simp add: sorted_iff_nth_Suc)
qed

lemma sortedTable_sorted_ends:
  assumes "sortedTable t"
  shows "sorted (ends t)"
proof -
  have "ends t ! i \<le> ends t ! Suc i" if "Suc i < length (ends t)" for i
    using assms that by (simp add: sortedTable_def)
  then show ?thesis by (simp add: sorted_iff_nth_Suc)
qed

text \<open>Strictly ascending 32-bit values: the value at index \<open>j\<close> is at least \<open>j\<close>.\<close>

lemma strict_index_le:
  fixes xs :: "u32 list"
  assumes "\<forall>i. i + 1 < length xs \<longrightarrow> xs ! i < xs ! (i + 1)" and "j < length xs"
  shows "j \<le> unat (xs ! j)"
  using assms(2)
proof (induction j)
  case 0
  then show ?case by simp
next
  case (Suc j)
  then have "j \<le> unat (xs ! j)" by simp
  moreover have "xs ! j < xs ! (j + 1)" using assms(1) Suc.prems by simp
  then have "unat (xs ! j) < unat (xs ! Suc j)" by (simp add: word_less_nat_alt)
  ultimately show ?case by simp
qed

lemma firstGE_strict_bound:
  fixes xs :: "u32 list"
  assumes "\<forall>i. i + 1 < length xs \<longrightarrow> xs ! i < xs ! (i + 1)"
  shows "firstGE xs key < 4294967296"
proof (cases "firstGE xs key")
  case 0
  then show ?thesis by simp
next
  case (Suc m)
  then have m: "m < firstGE xs key" by simp
  then have "xs ! m < key" by (rule firstGE_below)
  then have "unat (xs ! m) < unat key" by (simp add: word_less_nat_alt)
  moreover have "m < length xs" using m firstGE_le_length [of xs key] by simp
  then have "m \<le> unat (xs ! m)" by (rule strict_index_le [OF assms])
  ultimately have "Suc m \<le> unat key" by simp
  with unat_u32_less [of key] Suc show ?thesis by simp
qed

lemma unat_of_nat_u32_le: "unat (word_of_nat m :: u32) \<le> m"
  by (simp add: unsigned_of_nat take_bit_eq_mod)

text \<open>
  The window that \<open>bucketWindow\<close> computes on a table whose buckets were just built. The
  lower bound is the stored 32-bit cursor of the ends; the upper bound is the cursor of the
  starts, which for the last prefix was computed with the key of that same prefix.
\<close>

lemma bucketWindow_built:
  assumes ne: "starts t \<noteq> []"
    and small: "firstGE (starts t) (keyOf (unat (drop_bit 16 ip) + 1)) < 4294967296"
    and p: "unat (drop_bit 16 ip) < 65535"
  shows "bucketWindow (buildBuckets16 t) ip =
           (if firstGE (starts t) (keyOf (unat (drop_bit 16 ip) + 1))
                 \<le> unat (word_of_nat (firstGE (ends t) (keyOf (unat (drop_bit 16 ip)))) :: u32)
            then Inr None
            else Inr (Some (unat (word_of_nat (firstGE (ends t) (keyOf (unat (drop_bit 16 ip)))) :: u32),
                            firstGE (starts t) (keyOf (unat (drop_bit 16 ip) + 1)))))"
proof -
  define q where "q = unat (drop_bit 16 ip)"
  have q: "q < 65535" using p by (simp add: q_def)
  then have q': "q < 65536" by simp
  obtain lo where lo: "bucketLo16 (buildBuckets16 t) = Some lo" "length lo = 65536"
      "lo ! q = word_of_nat (firstGE (ends t) (keyOf q))"
    using buildBuckets16_lo [OF ne q'] by blast
  obtain hi where hi: "bucketHi16 (buildBuckets16 t) = Some hi" "length hi = 65536"
      "hi ! q = word_of_nat (firstGE (starts t) (keyOf (q + 1)))"
    using buildBuckets16_hi [OF ne q] by blast
  have b: "unat (hi ! q) = firstGE (starts t) (keyOf (q + 1))"
    using small hi(3) by (simp add: unat_of_nat_u32 q_def)
  have c: "firstGE (starts t) (keyOf (q + 1)) \<le> length (starts t)" by (rule firstGE_le_length)
  show ?thesis
    unfolding q_def [symmetric]
    using lo hi(1,2) b c q' by (simp add: bucketWindow_def Let_def q_def [symmetric])
qed

lemma bucketWindow_built_top:
  assumes ne: "starts t \<noteq> []"
    and small: "firstGE (starts t) (keyOf 65535) < 4294967296"
    and p: "unat (drop_bit 16 ip) = 65535"
  shows "bucketWindow (buildBuckets16 t) ip =
           (if firstGE (starts t) (keyOf 65535)
                 \<le> unat (word_of_nat (firstGE (ends t) (keyOf 65535)) :: u32)
            then Inr None
            else Inr (Some (unat (word_of_nat (firstGE (ends t) (keyOf 65535)) :: u32),
                            firstGE (starts t) (keyOf 65535))))"
proof -
  obtain lo where lo: "bucketLo16 (buildBuckets16 t) = Some lo" "length lo = 65536"
      "lo ! 65535 = word_of_nat (firstGE (ends t) (keyOf 65535))"
    using buildBuckets16_lo [OF ne, of 65535] by auto
  obtain hi where hi: "bucketHi16 (buildBuckets16 t) = Some hi" "length hi = 65536"
      "hi ! 65535 = word_of_nat (firstGE (starts t) (keyOf 65535))"
    using buildBuckets16_hi_top [OF ne] by blast
  have b: "unat (hi ! 65535) = firstGE (starts t) (keyOf 65535)"
    using small hi(3) by (simp add: unat_of_nat_u32)
  have c: "firstGE (starts t) (keyOf 65535) \<le> length (starts t)" by (rule firstGE_le_length)
  show ?thesis
    using lo hi(1,2) b c p by (simp add: bucketWindow_def Let_def)
qed

lemma prefix_cases:
  "unat (drop_bit 16 (ip :: u32)) < 65535 \<or> unat (drop_bit 16 ip) = 65535"
  using prefix_less [of ip] by arith

lemma greatest_in_window:
  fixes P :: "nat \<Rightarrow> bool"
  assumes "a \<le> j" "j < b" "P j"
  shows "\<exists>idx. a \<le> idx \<and> idx < b \<and> P idx \<and> (\<forall>k. idx < k \<and> k < b \<longrightarrow> \<not> P k)"
  using assms
proof (induction b)
  case 0
  then show ?case by simp
next
  case (Suc b)
  show ?case
  proof (cases "P b")
    case True
    with Suc.prems show ?thesis by (intro exI [of _ b]) auto
  next
    case False
    with Suc.prems have "j < b" by (cases "j = b") auto
    from Suc.IH [OF Suc.prems(1) this Suc.prems(3)]
    obtain idx where idx: "a \<le> idx" "idx < b" "P idx" "\<forall>k. idx < k \<and> k < b \<longrightarrow> \<not> P k"
      by blast
    have "\<not> P k" if "idx < k" "k < Suc b" for k
      using that idx(4) False by (cases "k = b") auto
    with idx show ?thesis by (intro exI [of _ idx]) auto
  qed
qed

text \<open>
  The search of \<open>lookup\<close> on a freshly indexed table, for an address that no start in
  the last prefix lies at or below: either no interval contains the address and the result
  is a miss, or the search stops at the last interval that starts at or below the address,
  and every interval that contains the address ends no later and has the same label.
\<close>

lemma lookup_built:
  assumes ok: "sortedTable t"
    and top: "\<forall>i<length (starts t). starts t ! i < 0xFFFF0000 \<or> ip < starts t ! i"
  shows "(lookup (buildBuckets16 t) ip = Inr None \<and> (\<forall>i. \<not> containsAt t ip i))
       \<or> (\<exists>idx. idx < length (starts t) \<and> starts t ! idx \<le> ip
              \<and> (\<forall>j. idx < j \<and> j < length (starts t) \<longrightarrow> ip < starts t ! j)
              \<and> (\<forall>i. containsAt t ip i \<longrightarrow> ip \<le> ends t ! idx \<and> labels t ! i = labels t ! idx)
              \<and> lookup (buildBuckets16 t) ip = Inr (finish (buildBuckets16 t) ip idx))"
proof (cases "starts t = []")
  case True
  then show ?thesis by (simp add: lookup_def containsAt_def)
next
  case ne: False
  define S where "S = starts t"
  define E where "E = ends t"
  define n where "n = length S"
  define q where "q = unat (drop_bit 16 ip)"
  define kb where "kb = (if q < 65535 then keyOf (q + 1) else keyOf 65535)"
  define a where "a = unat (word_of_nat (firstGE E (keyOf q)) :: u32)"
  define b where "b = firstGE S kb"
  have len: "length E = n" using ok by (simp add: sortedTable_def S_def E_def n_def)
  have strict: "\<forall>i. i + 1 < length S \<longrightarrow> S ! i < S ! (i + 1)"
    using ok by (simp add: sortedTable_def S_def)
  have pair: "labels t ! i = labels t ! j"
    if "i < j" "j < length (starts t)" "starts t ! j \<le> ends t ! i" for i j
    using ok that unfolding sortedTable_def by blast
  have sS: "sorted S" unfolding S_def using ok by (rule sortedTable_sorted_starts)
  have sE: "sorted E" unfolding E_def using ok by (rule sortedTable_sorted_ends)
  have klo: "keyOf q \<le> ip" unfolding q_def by (rule keyOf_prefix_le)
  have bsmall: "b < 4294967296" unfolding b_def using strict by (rule firstGE_strict_bound)
  have bn: "b \<le> n" unfolding b_def n_def by (rule firstGE_le_length)
  have ale: "a \<le> firstGE E (keyOf q)" unfolding a_def by (rule unat_of_nat_u32_le)
  have win: "bucketWindow (buildBuckets16 t) ip = (if b \<le> a then Inr None else Inr (Some (a, b)))"
  proof (cases "q < 65535")
    case True
    then have kb: "kb = keyOf (q + 1)" by (simp add: kb_def)
    have sm: "firstGE (starts t) (keyOf (unat (drop_bit 16 ip) + 1)) < 4294967296"
      using bsmall by (simp only: b_def kb S_def q_def)
    show ?thesis
      unfolding a_def b_def kb S_def E_def q_def
      by (rule bucketWindow_built [OF ne sm True [unfolded q_def]])
  next
    case False
    then have q: "q = 65535" using prefix_cases [of ip] by (simp add: q_def)
    then have kb: "kb = keyOf 65535" by (simp add: kb_def)
    have sm: "firstGE (starts t) (keyOf 65535) < 4294967296"
      using bsmall by (simp only: b_def kb S_def)
    show ?thesis
      unfolding a_def b_def kb q S_def E_def
      by (rule bucketWindow_built_top [OF ne sm q [unfolded q_def]])
  qed
  have above: "ip < S ! j" if "b \<le> j" "j < n" for j
  proof -
    have ge: "kb \<le> S ! j" using sS that unfolding b_def n_def by (rule firstGE_above)
    show ?thesis
    proof (cases "q < 65535")
      case True
      then have "ip < keyOf (q + 1)" unfolding q_def by (rule keyOf_next_prefix_gt)
      with ge True show ?thesis by (simp add: kb_def)
    next
      case False
      have k: "keyOf 65535 = 0xFFFF0000" by (simp add: keyOf_def)
      from False have "kb = keyOf 65535" by (simp add: kb_def)
      with ge k have "0xFFFF0000 \<le> S ! j" by simp
      then have "\<not> S ! j < 0xFFFF0000" by (simp only: not_less)
      moreover from top that(2) have "S ! j < 0xFFFF0000 \<or> ip < S ! j"
        unfolding S_def n_def by blast
      ultimately show ?thesis by blast
    qed
  qed
  have inwin: "a \<le> i \<and> i < b" if "containsAt t ip i" for i
  proof
    show "a \<le> i"
    proof (rule ccontr)
      assume "\<not> a \<le> i"
      with ale have "i < firstGE E (keyOf q)" by simp
      then have "E ! i < keyOf q" by (rule firstGE_below)
      with klo have "\<not> ip \<le> E ! i" by simp
      with that show False by (simp add: containsAt_def E_def)
    qed
    show "i < b"
    proof (rule ccontr)
      assume "\<not> i < b"
      then have "ip < S ! i" using that by (intro above) (auto simp: containsAt_def n_def S_def)
      then have "\<not> S ! i \<le> ip" by simp
      with that show False by (simp add: containsAt_def S_def)
    qed
  qed
  have st: "starts (buildBuckets16 t) = S" by (simp add: S_def)
  show ?thesis
  proof (cases "b \<le> a")
    case True
    then have "lookup (buildBuckets16 t) ip = Inr None"
      using ne win by (simp add: lookup_def)
    moreover have "\<not> containsAt t ip i" for i using inwin [of i] True by auto
    ultimately show ?thesis by blast
  next
    case False
    then have ab: "a < b" by simp
    have lk: "lookup (buildBuckets16 t) ip = Inr (searchWindow (buildBuckets16 t) ip a b)"
      using ne win ab by (simp add: lookup_def)
    show ?thesis
    proof (cases "\<exists>j. a \<le> j \<and> j < b \<and> S ! j \<le> ip")
      case False
      then have "\<forall>j. a \<le> j \<and> j < b \<longrightarrow> ip < starts (buildBuckets16 t) ! j"
        unfolding st by (meson not_le)
      then have "searchWindow (buildBuckets16 t) ip a b = None"
        using sS ab bn by (intro searchWindow_none) (simp_all add: S_def n_def)
      moreover have "\<not> containsAt t ip i" for i
      proof
        assume c: "containsAt t ip i"
        with inwin [of i] have "a \<le> i \<and> i < b \<and> S ! i \<le> ip" by (simp add: containsAt_def S_def)
        with False show False by blast
      qed
      ultimately show ?thesis using lk by simp
    next
      case True
      then obtain j where "a \<le> j" "j < b" "S ! j \<le> ip" by blast
      from greatest_in_window [of a j b "\<lambda>k. S ! k \<le> ip", OF this]
      obtain idx where idx: "a \<le> idx" "idx < b" "S ! idx \<le> ip"
          "\<forall>k. idx < k \<and> k < b \<longrightarrow> \<not> S ! k \<le> ip"
        by blast
      have gt: "ip < S ! k" if "idx < k" "k < n" for k
      proof (cases "k < b")
        case True
        with idx(4) that show ?thesis by (meson not_le)
      next
        case False
        then show ?thesis using that by (intro above) simp_all
      qed
      have "searchWindow (buildBuckets16 t) ip a b = finish (buildBuckets16 t) ip idx"
        using sS bn idx gt by (intro searchWindow_found) (simp_all add: S_def n_def)
      with lk have res: "lookup (buildBuckets16 t) ip = Inr (finish (buildBuckets16 t) ip idx)"
        by simp
      have idxn: "idx < n" using idx(2) bn by simp
      have cov: "ip \<le> ends t ! idx \<and> labels t ! i = labels t ! idx" if c: "containsAt t ip i" for i
      proof (cases "i = idx")
        case True
        with c show ?thesis by (simp add: containsAt_def)
      next
        case neq: False
        have i: "i < n" "S ! i \<le> ip" "ip \<le> E ! i"
          using c by (simp_all add: containsAt_def S_def E_def n_def)
        have "\<not> idx < i" using gt [of i] i by auto
        with neq have lt: "i < idx" by simp
        have "E ! i \<le> E ! idx" using sE lt idxn len by (intro sorted_nth_mono) simp_all
        with i(3) have 1: "ip \<le> E ! idx" by simp
        have "S ! idx \<le> E ! i" using idx(3) i(3) by simp
        then have "labels t ! i = labels t ! idx"
          using pair [of i idx] lt idxn by (simp add: S_def E_def n_def)
        with 1 show ?thesis by (simp add: E_def)
      qed
      have "idx < length (starts t)" using idxn by (simp add: n_def S_def)
      moreover have "starts t ! idx \<le> ip" using idx(3) by (simp add: S_def)
      moreover have "\<forall>j. idx < j \<and> j < length (starts t) \<longrightarrow> ip < starts t ! j"
        using gt by (simp add: S_def n_def)
      ultimately show ?thesis using cov res by blast
    qed
  qed
qed

lemma sortedTable_detectDense [simp]: "sortedTable (detectDense t) = sortedTable t"
  by (simp add: sortedTable_def)

lemma containsAt_detectDense [simp]: "containsAt (detectDense t) ip i = containsAt t ip i"
  by (simp add: containsAt_def)

lemma le_maxU32: "(w :: u32) \<le> maxU32"
  using unat_u32_less [of w] by (simp add: word_le_nat_alt unat_maxU32)

lemma dense_covers:
  assumes d: "dense (detectDense t)" and idx: "idx < length (starts t)"
    and nxt: "\<forall>j. idx < j \<and> j < length (starts t) \<longrightarrow> ip < starts t ! j"
  shows "ip \<le> ends t ! idx"
proof (cases "idx = length (starts t) - 1")
  case True
  with d have "ends t ! idx = maxU32" by (simp add: detectDense_dense_iff)
  then show ?thesis by (simp add: le_maxU32)
next
  case False
  with idx have lt: "idx < length (starts t) - 1" by simp
  with d have "unat (ends t ! idx) + 1 = unat (starts t ! (idx + 1))"
    by (simp add: detectDense_dense_iff)
  moreover have "ip < starts t ! (idx + 1)" using nxt lt by simp
  ultimately show ?thesis by (simp add: word_le_nat_alt word_less_nat_alt)
qed

text \<open>
  Claim C1, as amended. For every interval table with the starts strictly ascending, the
  ends non-decreasing (no interval nested in an earlier one) and any two overlapping
  intervals of the same label, with the dense flag and the bucket arrays computed as at
  open, and for every address \<open>ip\<close> such that no interval starts in the range from
  255.255.0.0 to \<open>ip\<close> (every address below 255.255.0.0 is such an address, and so is
  every address when no interval starts at or above 255.255.0.0): the lookup never faults,
  and it returns label \<open>l\<close> exactly when some interval \<open>i\<close> contains the address, has label
  \<open>l\<close> and, in a dense table, \<open>l\<close> is not \<open>labelNone\<close>; in every other case it returns a
  miss. This covers the linear scan and the binary search.
\<close>

theorem lookup_openTable_correct:
  assumes ok: "sortedTable t"
    and top: "\<forall>i<length (starts t). starts t ! i < 0xFFFF0000 \<or> ip < starts t ! i"
  shows "(\<exists>r. lookup (openTable t) ip = Inr r)
       \<and> (\<forall>l. lookup (openTable t) ip = Inr (Some l) \<longleftrightarrow>
            (\<exists>i. i < length (starts t) \<and> starts t ! i \<le> ip \<and> ip \<le> ends t ! i
                 \<and> labels t ! i = l \<and> (dense (openTable t) \<longrightarrow> l \<noteq> labelNone)))"
proof -
  define t1 where "t1 = detectDense t"
  have ok1: "sortedTable t1" using ok by (simp add: t1_def)
  have top1: "\<forall>i<length (starts t1). starts t1 ! i < 0xFFFF0000 \<or> ip < starts t1 ! i"
    using top by (simp add: t1_def)
  have ot: "openTable t = buildBuckets16 t1" by (simp add: openTable_def t1_def)
  have st1: "starts t1 = starts t" "ends t1 = ends t" "labels t1 = labels t"
    and ct1: "\<And>i. containsAt t1 ip i = containsAt t ip i"
    by (simp_all add: t1_def)
  have lb: "(lookup (buildBuckets16 t1) ip = Inr None \<and> (\<forall>i. \<not> containsAt t ip i))
       \<or> (\<exists>idx. idx < length (starts t) \<and> starts t ! idx \<le> ip
              \<and> (\<forall>j. idx < j \<and> j < length (starts t) \<longrightarrow> ip < starts t ! j)
              \<and> (\<forall>i. containsAt t ip i \<longrightarrow> ip \<le> ends t ! idx \<and> labels t ! i = labels t ! idx)
              \<and> lookup (buildBuckets16 t1) ip = Inr (finish (buildBuckets16 t1) ip idx))"
    using lookup_built [OF ok1 top1] unfolding st1 ct1 .
  from lb have main: "(\<exists>r. lookup (buildBuckets16 t1) ip = Inr r)
       \<and> (\<forall>l. lookup (buildBuckets16 t1) ip = Inr (Some l) \<longleftrightarrow>
            (\<exists>i. containsAt t ip i \<and> labels t ! i = l \<and> (dense t1 \<longrightarrow> l \<noteq> labelNone)))"
  proof (elim disjE conjE exE)
    assume "lookup (buildBuckets16 t1) ip = Inr None" "\<forall>i. \<not> containsAt t ip i"
    then show ?thesis by simp
  next
    fix idx
    assume hit: "idx < length (starts t)" "starts t ! idx \<le> ip"
        "\<forall>j. idx < j \<and> j < length (starts t) \<longrightarrow> ip < starts t ! j"
        "\<forall>i. containsAt t ip i \<longrightarrow> ip \<le> ends t ! idx \<and> labels t ! i = labels t ! idx"
        "lookup (buildBuckets16 t1) ip = Inr (finish (buildBuckets16 t1) ip idx)"
    have fin: "finish (buildBuckets16 t1) ip idx =
        (if dense t1 then (if labels t ! idx = labelNone then None else Some (labels t ! idx))
         else if ends t ! idx < ip then None else Some (labels t ! idx))"
      by (simp add: finish_def Let_def t1_def)
    have same: "labels t ! i = labels t ! idx" if "containsAt t ip i" for i
      using hit(4) that by simp
    show ?thesis
    proof (cases "dense t1")
      case True
      have "ip \<le> ends t ! idx"
        using True hit(1,3) unfolding t1_def by (rule dense_covers)
      with hit(1,2) have c: "containsAt t ip idx" by (simp add: containsAt_def)
      have ex: "(\<exists>i. containsAt t ip i \<and> labels t ! i = l \<and> (dense t1 \<longrightarrow> l \<noteq> labelNone))
          \<longleftrightarrow> (labels t ! idx = l \<and> l \<noteq> labelNone)" for l
      proof
        assume "\<exists>i. containsAt t ip i \<and> labels t ! i = l \<and> (dense t1 \<longrightarrow> l \<noteq> labelNone)"
        then obtain i where i: "containsAt t ip i" "labels t ! i = l" "dense t1 \<longrightarrow> l \<noteq> labelNone"
          by blast
        from same [OF i(1)] i(2,3) True show "labels t ! idx = l \<and> l \<noteq> labelNone" by simp
      next
        assume "labels t ! idx = l \<and> l \<noteq> labelNone"
        with c show "\<exists>i. containsAt t ip i \<and> labels t ! i = l \<and> (dense t1 \<longrightarrow> l \<noteq> labelNone)"
          by (intro exI [of _ idx]) simp
      qed
      show ?thesis
        unfolding hit(5) fin ex using True by (cases "labels t ! idx = labelNone") auto
    next
      case False
      show ?thesis
      proof (cases "ends t ! idx < ip")
        case True
        then have "\<not> ip \<le> ends t ! idx" by (simp add: not_le)
        with hit(4) have "\<not> containsAt t ip i" for i by blast
        then show ?thesis unfolding hit(5) fin using False True by simp
      next
        case nlt: False
        with hit(1,2) have c: "containsAt t ip idx" by (simp add: containsAt_def)
        have ex: "(\<exists>i. containsAt t ip i \<and> labels t ! i = l \<and> (dense t1 \<longrightarrow> l \<noteq> labelNone))
            \<longleftrightarrow> labels t ! idx = l" for l
        proof
          assume "\<exists>i. containsAt t ip i \<and> labels t ! i = l \<and> (dense t1 \<longrightarrow> l \<noteq> labelNone)"
          then obtain i where i: "containsAt t ip i" "labels t ! i = l" by blast
          from same [OF i(1)] i(2) show "labels t ! idx = l" by simp
        next
          assume "labels t ! idx = l"
          with c False show "\<exists>i. containsAt t ip i \<and> labels t ! i = l \<and> (dense t1 \<longrightarrow> l \<noteq> labelNone)"
            by (intro exI [of _ idx]) simp
        qed
        show ?thesis
          unfolding hit(5) fin ex using False nlt by auto
      qed
    qed
  qed
  have conv: "containsAt t ip i \<longleftrightarrow> i < length (starts t) \<and> starts t ! i \<le> ip \<and> ip \<le> ends t ! i" for i
    by (simp add: containsAt_def)
  from main show ?thesis unfolding ot conv buildBuckets16_fields by simp
qed

lemma firstGE_Nil [simp]: "firstGE [] k = 0"
  by (simp add: firstGE_def)

lemma firstGE_Cons [simp]: "firstGE (x # xs) k = (if x < k then Suc (firstGE xs k) else 0)"
  by (simp add: firstGE_def)

lemma keyOf_numeral [simp]:
  "keyOf 0 = 0" "keyOf 1 = 0x10000" "keyOf (Suc 0) = 0x10000" "keyOf 65535 = 0xFFFF0000"
  by (simp_all add: keyOf_def)

theorem lookup_openTable_correct_witness:
  "sortedTable \<lparr>starts = [0, 10, 0xFFFE0000], ends = [15, 20, 0xFFFFFFFF],
       labels = [5, 5, 7], dense = False, bucketLo16 = None, bucketHi16 = None\<rparr>
   \<and> lookup (openTable \<lparr>starts = [0, 10, 0xFFFE0000], ends = [15, 20, 0xFFFFFFFF],
       labels = [5, 5, 7], dense = False, bucketLo16 = None, bucketHi16 = None\<rparr>) 12
     = Inr (Some 5)
   \<and> lookup (openTable \<lparr>starts = [0, 10, 0xFFFE0000], ends = [15, 20, 0xFFFFFFFF],
       labels = [5, 5, 7], dense = False, bucketLo16 = None, bucketHi16 = None\<rparr>) 0xFFFF0010
     = Inr (Some 7)
   \<and> lookup (openTable \<lparr>starts = [0, 10, 0xFFFE0000], ends = [15, 20, 0xFFFFFFFF],
       labels = [5, 5, 7], dense = False, bucketLo16 = None, bucketHi16 = None\<rparr>) 100
     = Inr None"
proof -
  let ?t = "\<lparr>starts = [0, 10, 0xFFFE0000 :: u32], ends = [15, 20, 0xFFFFFFFF :: u32],
       labels = [5, 5, 7 :: u32], dense = False, bucketLo16 = None, bucketHi16 = None\<rparr>"
  have ok: "sortedTable ?t"
    by (auto simp: sortedTable_def less_Suc_eq)
  have nd: "\<not> dense (openTable ?t)"
    by (simp add: openTable_def detectDense_def denseScan.simps [of _ _ 0] maxU32_def)
  have top: "\<forall>i<length (starts ?t). starts ?t ! i < 0xFFFF0000 \<or> ip < starts ?t ! i" for ip
    by (auto simp: less_Suc_eq)
  have "lookup (openTable ?t) 12 = Inr (Some 5)"
    using lookup_openTable_correct [OF ok top, of 12] nd
    by (auto intro!: exI [of _ 0])
  moreover have "lookup (openTable ?t) 0xFFFF0010 = Inr (Some 7)"
    using lookup_openTable_correct [OF ok top, of "0xFFFF0010"] nd
    by (auto intro!: exI [of _ 2])
  moreover have "lookup (openTable ?t) 100 = Inr None"
  proof -
    obtain r where r: "lookup (openTable ?t) 100 = Inr r"
      using lookup_openTable_correct [OF ok top, of 100] by blast
    have "r \<noteq> Some l" for l
      using lookup_openTable_correct [OF ok top, of 100] r by (auto simp: less_Suc_eq)
    then have "r = None" by (cases r) auto
    with r show ?thesis by simp
  qed
  ultimately show ?thesis using ok by simp
qed

text \<open>
  Two concrete lookups. In the first table the second interval is nested in the first one
  and has the same label; the search stops at the second interval and misses. In the second
  table the interval starts at 255.255.0.0, and the window of the last prefix is empty.
\<close>

lemma lookup_overlap_example:
  "lookup (openTable \<lparr>starts = [0, 10], ends = [100, 20], labels = [5, 5],
       dense = False, bucketLo16 = None, bucketHi16 = None\<rparr>) 50 = Inr None"
proof -
  let ?t = "\<lparr>starts = [0, 10 :: u32], ends = [100, 20 :: u32], labels = [5, 5 :: u32],
       dense = False, bucketLo16 = None, bucketHi16 = None\<rparr>"
  have p: "unat (drop_bit 16 (50 :: u32)) = 0" by (simp add: unat_prefix)
  have d: "detectDense ?t = ?t"
    by (simp add: detectDense_def denseScan.simps [of _ _ 0] maxU32_def)
  have w: "bucketWindow (buildBuckets16 ?t) 50 = Inr (Some (0, 2))"
    by (subst bucketWindow_built) (simp_all add: p)
  have "scanDown (buildBuckets16 ?t) 50 0 2 = finish (buildBuckets16 ?t) 50 1"
    by (rule scanDown_found) simp_all
  then have "searchWindow (buildBuckets16 ?t) 50 0 2 = None"
    by (simp add: searchWindow_def linearThreshold_def finish_def)
  with w show ?thesis by (simp add: lookup_def openTable_def d)
qed

lemma lookup_top_example:
  "lookup (openTable \<lparr>starts = [0xFFFF0000], ends = [0xFFFFFFFF], labels = [7],
       dense = False, bucketLo16 = None, bucketHi16 = None\<rparr>) 0xFFFF0001 = Inr None"
proof -
  let ?t = "\<lparr>starts = [0xFFFF0000 :: u32], ends = [0xFFFFFFFF :: u32], labels = [7 :: u32],
       dense = False, bucketLo16 = None, bucketHi16 = None\<rparr>"
  have p: "unat (drop_bit 16 (0xFFFF0001 :: u32)) = 65535" by (simp add: unat_prefix)
  have d: "detectDense ?t = ?t"
    by (simp add: detectDense_def)
  have w: "bucketWindow (buildBuckets16 ?t) 0xFFFF0001 = Inr None"
    by (subst bucketWindow_built_top) (simp_all add: p)
  then show ?thesis by (simp add: lookup_def openTable_def d)
qed

text \<open>
  Claim C1 as stated fails: with an interval nested in an earlier one of the same label,
  and with an interval that starts in the last /16, an interval with the label contains the
  address and the lookup still does not return that label.
\<close>

theorem lookup_claim_counterexample:
  "(starts \<lparr>starts = [0, 10 :: u32], ends = [100, 20], labels = [5, 5],
       dense = False, bucketLo16 = None, bucketHi16 = None\<rparr> ! 0 \<le> 50
    \<and> (50 :: u32) \<le> ends \<lparr>starts = [0, 10 :: u32], ends = [100, 20], labels = [5, 5],
       dense = False, bucketLo16 = None, bucketHi16 = None\<rparr> ! 0
    \<and> lookup (openTable \<lparr>starts = [0, 10], ends = [100, 20], labels = [5, 5],
       dense = False, bucketLo16 = None, bucketHi16 = None\<rparr>) 50 \<noteq> Inr (Some 5))
   \<and> (starts \<lparr>starts = [0xFFFF0000 :: u32], ends = [0xFFFFFFFF], labels = [7],
       dense = False, bucketLo16 = None, bucketHi16 = None\<rparr> ! 0 \<le> 0xFFFF0001
    \<and> (0xFFFF0001 :: u32) \<le> ends \<lparr>starts = [0xFFFF0000 :: u32], ends = [0xFFFFFFFF], labels = [7],
       dense = False, bucketLo16 = None, bucketHi16 = None\<rparr> ! 0
    \<and> lookup (openTable \<lparr>starts = [0xFFFF0000], ends = [0xFFFFFFFF], labels = [7],
       dense = False, bucketLo16 = None, bucketHi16 = None\<rparr>) 0xFFFF0001 \<noteq> Inr (Some 7))"
  by (simp add: lookup_overlap_example lookup_top_example)

text \<open>
  Claim C2 at the table that holds the single interval 255.255.0.0 - 255.255.255.255:
  \<open>bucketHi16[65535]\<close> is 0, although no start is at or above \<open>2^32\<close> (the smallest index
  the claim describes is the table length 1); with \<open>bucketLo16[65535] = 0\<close> the window of
  the last prefix is empty, although interval 0 contains 255.255.0.1.
\<close>

theorem buildBuckets16_top_prefix:
  "map_option (\<lambda>hi. hi ! 65535)
     (bucketHi16 (buildBuckets16 \<lparr>starts = [0xFFFF0000], ends = [0xFFFFFFFF], labels = [7],
        dense = False, bucketLo16 = None, bucketHi16 = None\<rparr>)) = Some 0
   \<and> map_option (\<lambda>lo. lo ! 65535)
     (bucketLo16 (buildBuckets16 \<lparr>starts = [0xFFFF0000], ends = [0xFFFFFFFF], labels = [7],
        dense = False, bucketLo16 = None, bucketHi16 = None\<rparr>)) = Some 0
   \<and> (0xFFFF0000 :: u32) \<le> 0xFFFF0001 \<and> (0xFFFF0001 :: u32) \<le> 0xFFFFFFFF"
proof -
  let ?t = "\<lparr>starts = [0xFFFF0000 :: u32], ends = [0xFFFFFFFF :: u32], labels = [7 :: u32],
       dense = False, bucketLo16 = None, bucketHi16 = None\<rparr>"
  obtain hi where hi: "bucketHi16 (buildBuckets16 ?t) = Some hi"
      "hi ! 65535 = word_of_nat (firstGE (starts ?t) (keyOf 65535))"
    using buildBuckets16_hi_top [of ?t] by auto
  obtain lo where lo: "bucketLo16 (buildBuckets16 ?t) = Some lo"
      "lo ! 65535 = word_of_nat (firstGE (ends ?t) (keyOf 65535))"
    using buildBuckets16_lo [of ?t 65535] by auto
  show ?thesis using hi lo by simp
qed

lemma bindP_simps [simp]: "bindP (Inr x) f = f x" "bindP (Inl p) f = Inl p"
  by (simp_all add: bindP_def)







text \<open>Neither inner lookup ever returns an error value.\<close>

lemma lookupIntoU32_no_error: "lookupIntoU32 v ip dst \<noteq> Inr (r, Inl err)"
  by (auto simp: lookupIntoU32_def bindP_def split: sum.splits option.splits prod.splits)

lemma lookupIDsIntoU32_no_error: "lookupIDsIntoU32 v ip dst \<noteq> Inr (r, Inl err)"
  by (auto simp: lookupIDsIntoU32_def bindP_def Let_def split: sum.splits option.splits prod.splits)


lemma clearResult_eq:
  "clearResult (r :: Result) = \<lparr>Result.IP = AddrZero, CountryCode = [], CountryName = [],
      CNProvinceCode = [], CNProvinceName = [], CNCityCode = [], CNCityName = [],
      ProviderKey = [], ProviderName = [], Result.ProviderKind = ProviderKindUnknown\<rparr>"
  by (simp add: clearResult_def)

lemma clearResultIDs_eq:
  "clearResultIDs (r :: ResultIDs) = \<lparr>ResultIDs.IP = AddrZero, CountryID = IDNone,
      CNProvinceID = IDNone, CNCityID = IDNone, ProviderID = IDNone,
      ResultIDs.ProviderKind = ProviderKindUnknown\<rparr>"
  by (simp add: clearResultIDs_def)

lemma lookupInto_no_error: "lookupInto v addr dst \<noteq> Inr (r, Inl err)"
  by (cases "As4 addr") (simp_all add: lookupInto_def lookupIntoU32_no_error)

lemma lookupIDsInto_no_error: "lookupIDsInto v addr dst \<noteq> Inr (r, Inl err)"
  by (cases "As4 addr") (simp_all add: lookupIDsInto_def lookupIDsIntoU32_no_error)

text \<open>
  Claim C10. On a database that was opened (the receiver and its \<open>v4\<close> are not nil) and a
  destination that is not nil: whenever \<open>LookupAddrInto\<close> returns an error, the
  destination is the cleared record whatever it held before, and likewise for
  \<open>LookupAddrIDsInto\<close>; this is the case for every address that is not IPv4, where the
  error is \<open>ErrUnsupportedIP\<close>.
\<close>

theorem LookupAddrInto_error_clears:
  assumes "v4 db = Some v"
  shows "(\<forall>dst' err. LookupAddrInto (Some db) addr (Some dst) = Inr (dst', Inl err) \<longrightarrow>
            dst' = Some \<lparr>Result.IP = AddrZero, CountryCode = [], CountryName = [],
              CNProvinceCode = [], CNProvinceName = [], CNCityCode = [], CNCityName = [],
              ProviderKey = [], ProviderName = [], Result.ProviderKind = ProviderKindUnknown\<rparr>)
       \<and> (\<forall>ids' err. LookupAddrIDsInto (Some db) addr (Some ids) = Inr (ids', Inl err) \<longrightarrow>
            ids' = Some \<lparr>ResultIDs.IP = AddrZero, CountryID = IDNone, CNProvinceID = IDNone,
              CNCityID = IDNone, ProviderID = IDNone,
              ResultIDs.ProviderKind = ProviderKindUnknown\<rparr>)
       \<and> (\<not> Is4 addr \<longrightarrow>
            (\<exists>dst'. LookupAddrInto (Some db) addr (Some dst) = Inr (dst', Inl ErrUnsupportedIP))
          \<and> (\<exists>ids'. LookupAddrIDsInto (Some db) addr (Some ids) = Inr (ids', Inl ErrUnsupportedIP)))"
proof (intro conjI allI impI)
  fix dst' err
  assume a: "LookupAddrInto (Some db) addr (Some dst) = Inr (dst', Inl err)"
  show "dst' = Some \<lparr>Result.IP = AddrZero, CountryCode = [], CountryName = [],
              CNProvinceCode = [], CNProvinceName = [], CNCityCode = [], CNCityName = [],
              ProviderKey = [], ProviderName = [], Result.ProviderKind = ProviderKindUnknown\<rparr>"
  proof (cases "Is4 addr")
    case False
    with a assms show ?thesis by (auto simp: LookupAddrInto_def clearResult_eq)
  next
    case True
    with a assms show ?thesis
      by (auto simp: LookupAddrInto_def Let_def bindP_def clearResult_eq lookupInto_no_error
          split: sum.splits prod.splits)
  qed
next
  fix ids' err
  assume a: "LookupAddrIDsInto (Some db) addr (Some ids) = Inr (ids', Inl err)"
  show "ids' = Some \<lparr>ResultIDs.IP = AddrZero, CountryID = IDNone, CNProvinceID = IDNone,
              CNCityID = IDNone, ProviderID = IDNone,
              ResultIDs.ProviderKind = ProviderKindUnknown\<rparr>"
  proof (cases "Is4 addr")
    case False
    with a assms show ?thesis by (auto simp: LookupAddrIDsInto_def clearResultIDs_eq)
  next
    case True
    with a assms show ?thesis
      by (auto simp: LookupAddrIDsInto_def Let_def bindP_def clearResultIDs_eq lookupIDsInto_no_error
          split: sum.splits prod.splits)
  qed
next
  assume "\<not> Is4 addr"
  then show "\<exists>dst'. LookupAddrInto (Some db) addr (Some dst) = Inr (dst', Inl ErrUnsupportedIP)"
    using assms by (simp add: LookupAddrInto_def)
next
  assume "\<not> Is4 addr"
  then show "\<exists>ids'. LookupAddrIDsInto (Some db) addr (Some ids) = Inr (ids', Inl ErrUnsupportedIP)"
    using assms by (simp add: LookupAddrIDsInto_def)
qed

theorem LookupAddrInto_error_clears_witness:
  "v4 \<lparr>data = [], v4 = Some \<lparr>stringsData = [], stringsStart = [], stringsEnd = [],
          countryLabels = [], cnLabels = [], providerLabels = [],
          country = \<lparr>starts = [], ends = [], labels = [], dense = False, bucketLo16 = None, bucketHi16 = None\<rparr>,
          cnProv = \<lparr>starts = [], ends = [], labels = [], dense = False, bucketLo16 = None, bucketHi16 = None\<rparr>,
          cnCity = \<lparr>starts = [], ends = [], labels = [], dense = False, bucketLo16 = None, bucketHi16 = None\<rparr>,
          provider = \<lparr>starts = [], ends = [], labels = [], dense = False, bucketLo16 = None, bucketHi16 = None\<rparr>,
          providerByKey = Map.empty, providerKindByKey = Map.empty\<rparr>\<rparr> \<noteq> None
   \<and> LookupAddrInto
        (Some \<lparr>data = [], v4 = Some \<lparr>stringsData = [], stringsStart = [], stringsEnd = [],
          countryLabels = [], cnLabels = [], providerLabels = [],
          country = \<lparr>starts = [], ends = [], labels = [], dense = False, bucketLo16 = None, bucketHi16 = None\<rparr>,
          cnProv = \<lparr>starts = [], ends = [], labels = [], dense = False, bucketLo16 = None, bucketHi16 = None\<rparr>,
          cnCity = \<lparr>starts = [], ends = [], labels = [], dense = False, bucketLo16 = None, bucketHi16 = None\<rparr>,
          provider = \<lparr>starts = [], ends = [], labels = [], dense = False, bucketLo16 = None, bucketHi16 = None\<rparr>,
          providerByKey = Map.empty, providerKindByKey = Map.empty\<rparr>\<rparr>)
        (Addr6 1)
        (Some \<lparr>Result.IP = Addr4 1 2 3 4, CountryCode = [67, 78], CountryName = [67],
           CNProvinceCode = [49], CNProvinceName = [50], CNCityCode = [51], CNCityName = [52],
           ProviderKey = [53], ProviderName = [54], Result.ProviderKind = ProviderKindCloud\<rparr>)
     = Inr (Some \<lparr>Result.IP = AddrZero, CountryCode = [], CountryName = [],
              CNProvinceCode = [], CNProvinceName = [], CNCityCode = [], CNCityName = [],
              ProviderKey = [], ProviderName = [], Result.ProviderKind = ProviderKindUnknown\<rparr>,
            Inl ErrUnsupportedIP)
   \<and> LookupAddrIDsInto
        (Some \<lparr>data = [], v4 = Some \<lparr>stringsData = [], stringsStart = [], stringsEnd = [],
          countryLabels = [], cnLabels = [], providerLabels = [],
          country = \<lparr>starts = [], ends = [], labels = [], dense = False, bucketLo16 = None, bucketHi16 = None\<rparr>,
          cnProv = \<lparr>starts = [], ends = [], labels = [], dense = False, bucketLo16 = None, bucketHi16 = None\<rparr>,
          cnCity = \<lparr>starts = [], ends = [], labels = [], dense = False, bucketLo16 = None, bucketHi16 = None\<rparr>,
          provider = \<lparr>starts = [], ends = [], labels = [], dense = False, bucketLo16 = None, bucketHi16 = None\<rparr>,
          providerByKey = Map.empty, providerKindByKey = Map.empty\<rparr>\<rparr>)
        (Addr6 1)
        (Some \<lparr>ResultIDs.IP = Addr4 1 2 3 4, CountryID = 3, CNProvinceID = 4, CNCityID = 5,
           ProviderID = 6, ResultIDs.ProviderKind = ProviderKindISP\<rparr>)
     = Inr (Some \<lparr>ResultIDs.IP = AddrZero, CountryID = IDNone, CNProvinceID = IDNone,
              CNCityID = IDNone, ProviderID = IDNone,
              ResultIDs.ProviderKind = ProviderKindUnknown\<rparr>,
            Inl ErrUnsupportedIP)"
proof -
  let ?e = "\<lparr>starts = [], ends = [], labels = [], dense = False, bucketLo16 = None, bucketHi16 = None\<rparr>"
  let ?v = "\<lparr>stringsData = [], stringsStart = [], stringsEnd = [],
          countryLabels = [], cnLabels = [], providerLabels = [],
          country = ?e, cnProv = ?e, cnCity = ?e, provider = ?e,
          providerByKey = Map.empty, providerKindByKey = Map.empty\<rparr>"
  let ?db = "\<lparr>data = [], v4 = Some ?v\<rparr>"
  let ?dst = "\<lparr>Result.IP = Addr4 1 2 3 4, CountryCode = [67, 78], CountryName = [67],
           CNProvinceCode = [49], CNProvinceName = [50], CNCityCode = [51], CNCityName = [52],
           ProviderKey = [53], ProviderName = [54], Result.ProviderKind = ProviderKindCloud\<rparr>"
  let ?ids = "\<lparr>ResultIDs.IP = Addr4 1 2 3 4, CountryID = 3, CNProvinceID = 4, CNCityID = 5,
           ProviderID = 6, ResultIDs.ProviderKind = ProviderKindISP\<rparr>"
  have db: "v4 ?db = Some ?v" by simp
  have n4: "\<not> Is4 (Addr6 1)" by simp
  note th = LookupAddrInto_error_clears [OF db, where addr = "Addr6 1" and dst = ?dst and ids = ?ids]
  from th n4 obtain d' where d': "LookupAddrInto (Some ?db) (Addr6 1) (Some ?dst) = Inr (d', Inl ErrUnsupportedIP)"
    by blast
  from th n4 obtain i' where i': "LookupAddrIDsInto (Some ?db) (Addr6 1) (Some ?ids) = Inr (i', Inl ErrUnsupportedIP)"
    by blast
  from th d' have "d' = Some \<lparr>Result.IP = AddrZero, CountryCode = [], CountryName = [],
              CNProvinceCode = [], CNProvinceName = [], CNCityCode = [], CNCityName = [],
              ProviderKey = [], ProviderName = [], Result.ProviderKind = ProviderKindUnknown\<rparr>"
    by blast
  moreover from th i' have "i' = Some \<lparr>ResultIDs.IP = AddrZero, CountryID = IDNone, CNProvinceID = IDNone,
              CNCityID = IDNone, ProviderID = IDNone,
              ResultIDs.ProviderKind = ProviderKindUnknown\<rparr>"
    by blast
  ultimately show ?thesis using d' i' by simp
qed


lemma str_cnProv_update [simp]: "str (v\<lparr>cnProv := t'\<rparr>) i = str v i"
  by (simp add: str_def Let_def)

lemma labels_cnProv_update [simp]:
  "countryLabel (v\<lparr>cnProv := t'\<rparr>) l = countryLabel v l"
  "cnLabel (v\<lparr>cnProv := t'\<rparr>) l = cnLabel v l"
  "providerLabelOf (v\<lparr>cnProv := t'\<rparr>) l = providerLabelOf v l"
  by (simp_all add: countryLabel_def cnLabel_def providerLabelOf_def Let_def)








lemma lookupInto_Addr4 [simp]:
  "lookupInto v (Addr4 a b c d) dst = lookupIntoU32 v (packIPv4 (a, b, c, d)) dst"
  "lookupIDsInto v (Addr4 a b c d) ids = lookupIDsIntoU32 v (packIPv4 (a, b, c, d)) ids"
  by (simp_all add: lookupInto_def lookupIDsInto_def)


lemma buildBuckets16_cong:
  assumes "starts t' = starts t" "ends t' = ends t"
  shows "bucketLo16 (buildBuckets16 t') = bucketLo16 (buildBuckets16 t)"
    and "bucketHi16 (buildBuckets16 t') = bucketHi16 (buildBuckets16 t)"
  using assms by (simp_all add: buildBuckets16_def Let_def del: upt_rec_numeral)

lemma detectDense_dense_cong:
  assumes "starts t' = starts t" "ends t' = ends t" "labels t' = labels t"
  shows "dense (detectDense t') = dense (detectDense t)"
  using assms by (simp add: detectDense_def)

lemma openTable_idem: "openTable (openTable t) = openTable t"
proof -
  let ?u = "openTable t"
  have f: "starts ?u = starts t" "ends ?u = ends t" "labels ?u = labels t"
    by (simp_all add: openTable_def)
  have d: "dense (openTable ?u) = dense ?u"
    using detectDense_dense_cong [OF f] by (simp add: openTable_def)
  have lo: "bucketLo16 (openTable ?u) = bucketLo16 ?u"
    using buildBuckets16_cong(1) [of "detectDense ?u" "detectDense t"] f
    by (simp add: openTable_def)
  have hi: "bucketHi16 (openTable ?u) = bucketHi16 ?u"
    using buildBuckets16_cong(2) [of "detectDense ?u" "detectDense t"] f
    by (simp add: openTable_def)
  have s: "starts (openTable ?u) = starts ?u" "ends (openTable ?u) = ends ?u"
      "labels (openTable ?u) = labels ?u"
    by (simp_all add: openTable_def)
  show ?thesis using d lo hi s by (intro v4Table.equality) simp_all
qed

lemma indexed_openTable [simp]: "indexed (openTable t)"
  by (simp add: indexed_def openTable_idem)



lemma packIPv4_low [simp]: "packIPv4 (0, 0, 0, d) = ucast d"
  by (simp add: packIPv4_def)





end
